theory Spec2Isabelle
  imports Complex_Main "HOL-Library.Multiset"
begin

section \<open>Strings\<close>

text \<open>
  A Python \<open>str\<close> is modelled as a HOL \<open>string\<close>: one \<open>char\<close> per code point, for
  the code points below 256 (the Latin-1 range). The character classes of the \<open>re\<close>
  module and \<open>str.lower\<close> are given on that range as CPython 3 computes them.
\<close>

text \<open>\<open>s.startswith(p)\<close>\<close>

fun startswith :: "string \<Rightarrow> string \<Rightarrow> bool" where
  "startswith s [] = True"
| "startswith [] (p # ps) = False"
| "startswith (c # cs) (p # ps) = (c = p \<and> startswith cs ps)"

text \<open>\<open>s.endswith(p)\<close>\<close>

definition endswith :: "string \<Rightarrow> string \<Rightarrow> bool" where
  "endswith s p = startswith (rev s) (rev p)"

text \<open>\<open>sub in s\<close>\<close>

fun contains :: "string \<Rightarrow> string \<Rightarrow> bool" where
  "contains [] sub = (sub = [])"
| "contains (c # cs) sub = (startswith (c # cs) sub \<or> contains cs sub)"

text \<open>\<open>str.lower\<close>, one character at a time: A-Z, and the Latin-1 capitals but the
  multiplication sign.\<close>

definition lower_char :: "char \<Rightarrow> char" where
  "lower_char c =
     (let n = (of_char c :: nat)
      in if (0x41 \<le> n \<and> n \<le> 0x5A) \<or> (0xC0 \<le> n \<and> n \<le> 0xDE \<and> n \<noteq> 0xD7)
         then char_of (n + 32) else c)"

definition lower :: "string \<Rightarrow> string" where
  "lower s = map lower_char s"

text \<open>\<open>str(i)\<close> and \<open>f"{i}"\<close> for a non-negative integer: its decimal digits.\<close>

definition digit_char :: "nat \<Rightarrow> char" where
  "digit_char d = char_of (48 + d)"

fun str_nat :: "nat \<Rightarrow> string" where
  "str_nat n = (if n < 10 then [digit_char n] else str_nat (n div 10) @ [digit_char (n mod 10)])"

declare str_nat.simps [simp del]

section \<open>\<open>urllib.parse.urlparse\<close>\<close>

text \<open>
  The six components of \<open>urlparse(url)\<close>. The model follows \<open>urlsplit\<close> and
  \<open>urlparse\<close> of the standard library: leading control characters and spaces are
  stripped, tab, carriage return and newline are removed, the scheme is split off at
  the first colon when the text before it is a scheme, the authority follows \<open>//\<close> up
  to the first of \<open>/ ? #\<close>, then the fragment, the query and the parameters of the last
  path segment are split off. The library raises \<open>ValueError\<close> on a malformed bracketed
  host; the model covers the URLs on which it returns.
\<close>

record parse_result =
  scheme :: string
  netloc :: string
  path :: string
  params :: string
  query :: string
  fragment :: string

definition c0_control_or_space :: "char \<Rightarrow> bool" where
  "c0_control_or_space c = ((of_char c :: nat) \<le> 0x20)"

definition unsafe_url_byte :: "char \<Rightarrow> bool" where
  "unsafe_url_byte c = (c = CHR 0x09 \<or> c = CHR 0x0D \<or> c = CHR 0x0A)"

definition ascii_alpha :: "char \<Rightarrow> bool" where
  "ascii_alpha c =
     (let n = (of_char c :: nat) in (0x41 \<le> n \<and> n \<le> 0x5A) \<or> (0x61 \<le> n \<and> n \<le> 0x7A))"

definition ascii_digit :: "char \<Rightarrow> bool" where
  "ascii_digit c = (let n = (of_char c :: nat) in 0x30 \<le> n \<and> n \<le> 0x39)"

definition scheme_char :: "char \<Rightarrow> bool" where
  "scheme_char c = (ascii_alpha c \<or> ascii_digit c \<or> c = CHR ''+'' \<or> c = CHR ''-'' \<or> c = CHR ''.'')"

definition uses_params :: "string list" where
  "uses_params = ['''', ''ftp'', ''hdl'', ''prospero'', ''http'', ''imap'', ''https'', ''shttp'',
     ''rtsp'', ''rtsps'', ''rtspu'', ''sip'', ''sips'', ''mms'', ''sftp'', ''tel'']"

text \<open>\<open>s.split(c, 1)\<close> for a \<open>c\<close> that occurs in \<open>s\<close>.\<close>

definition split_first :: "char \<Rightarrow> string \<Rightarrow> string \<times> string" where
  "split_first c s = (takeWhile (\<lambda>x. x \<noteq> c) s, drop 1 (dropWhile (\<lambda>x. x \<noteq> c) s))"

text \<open>The text after the last \<open>/\<close> of \<open>s\<close> (all of \<open>s\<close> when it has none):
  \<open>s[s.rfind('/') + 1:]\<close>.\<close>

definition after_last_slash :: "string \<Rightarrow> string" where
  "after_last_slash s = rev (takeWhile (\<lambda>x. x \<noteq> CHR ''/'') (rev s))"

definition splitparams :: "string \<Rightarrow> string \<times> string" where
  "splitparams url =
     (let tail = after_last_slash url;
          head = take (length url - length tail) url
      in if CHR '';'' \<in> set tail
         then (head @ takeWhile (\<lambda>x. x \<noteq> CHR '';'') tail,
               drop 1 (dropWhile (\<lambda>x. x \<noteq> CHR '';'') tail))
         else (url, ''''))"

definition urlparse :: "string \<Rightarrow> parse_result" where
  "urlparse url0 =
     (let url1 = filter (\<lambda>c. \<not> unsafe_url_byte c) (dropWhile c0_control_or_space url0);
          pre = takeWhile (\<lambda>x. x \<noteq> CHR '':'') url1;
          has_scheme = (CHR '':'' \<in> set url1 \<and> pre \<noteq> [] \<and> ascii_alpha (hd pre)
                        \<and> list_all scheme_char pre);
          sch = (if has_scheme then lower pre else '''');
          url2 = (if has_scheme then drop (Suc (length pre)) url1 else url1);
          has_netloc = (take 2 url2 = ''//'');
          delim = (\<lambda>x. x = CHR ''/'' \<or> x = CHR ''?'' \<or> x = CHR ''#'');
          loc = (if has_netloc then takeWhile (\<lambda>x. \<not> delim x) (drop 2 url2) else '''');
          url3 = (if has_netloc then dropWhile (\<lambda>x. \<not> delim x) (drop 2 url2) else url2);
          (url4, frag) = (if CHR ''#'' \<in> set url3 then split_first (CHR ''#'') url3 else (url3, ''''));
          (url5, qry) = (if CHR ''?'' \<in> set url4 then split_first (CHR ''?'') url4 else (url4, ''''));
          (url6, prm) = (if sch \<in> set uses_params \<and> CHR '';'' \<in> set url5
                         then splitparams url5 else (url5, ''''))
      in \<lparr> scheme = sch, netloc = loc, path = url6, params = prm, query = qry, fragment = frag \<rparr>)"

section \<open>Scope policy\<close>

definition is_same_site :: "string \<Rightarrow> string \<Rightarrow> bool" where
  "is_same_site url base = (netloc (urlparse url) = netloc (urlparse base))"

definition is_under_base_path :: "string \<Rightarrow> string \<Rightarrow> bool" where
  "is_under_base_path url base =
     (let up = urlparse url; bp = urlparse base
      in netloc up = netloc bp \<and> startswith (path up) (path bp))"

definition looks_like_pdf :: "string \<Rightarrow> bool" where
  "looks_like_pdf url = (let p = lower (path (urlparse url)) in endswith p ''.pdf'')"

section \<open>File names\<close>

text \<open>The classes \<open>\w\<close> and \<open>\s\<close> of a \<open>str\<close> pattern, on the code points below 256.\<close>

definition re_word :: "char \<Rightarrow> bool" where
  "re_word c =
     (let n = (of_char c :: nat)
      in (0x30 \<le> n \<and> n \<le> 0x39) \<or> (0x41 \<le> n \<and> n \<le> 0x5A) \<or> n = 0x5F
         \<or> (0x61 \<le> n \<and> n \<le> 0x7A) \<or> n = 0xAA \<or> n = 0xB2 \<or> n = 0xB3 \<or> n = 0xB5
         \<or> n = 0xB9 \<or> n = 0xBA \<or> (0xBC \<le> n \<and> n \<le> 0xBE) \<or> (0xC0 \<le> n \<and> n \<le> 0xD6)
         \<or> (0xD8 \<le> n \<and> n \<le> 0xF6) \<or> 0xF8 \<le> n)"

definition re_space :: "char \<Rightarrow> bool" where
  "re_space c =
     (let n = (of_char c :: nat)
      in (0x09 \<le> n \<and> n \<le> 0x0D) \<or> (0x1C \<le> n \<and> n \<le> 0x20) \<or> n = 0x85 \<or> n = 0xA0)"

text \<open>The characters the pattern \<open>[^\w\-.()+\s]\<close> does not match.\<close>

definition kept_char :: "char \<Rightarrow> bool" where
  "kept_char c = (re_word c \<or> c = CHR ''-'' \<or> c = CHR ''.'' \<or> c = CHR ''('' \<or> c = CHR '')''
                  \<or> c = CHR ''+'' \<or> re_space c)"

definition sanitize_filename :: "string \<Rightarrow> string" where
  "sanitize_filename name0 =
     (let name1 = map (\<lambda>c. if kept_char c then c else CHR ''_'') name0
      in if length name1 > 180 then drop (length name1 - 180) name1 else name1)"

section \<open>The file system and unique paths\<close>

text \<open>
  The file system is the finite list of the paths that exist (\<open>os.path.exists\<close>), on
  a POSIX system. File-system calls themselves are taken to succeed.
\<close>

definition path_exists :: "string list \<Rightarrow> string \<Rightarrow> bool" where
  "path_exists fs p = (p \<in> set fs)"

text \<open>\<open>os.path.splitext\<close>: the extension starts at the last dot of the final
  component, unless only dots come before it there.\<close>

definition splitext :: "string \<Rightarrow> string \<times> string" where
  "splitext p =
     (let fname = after_last_slash p;
          dir = take (length p - length fname) p;
          n = length (takeWhile (\<lambda>x. x \<noteq> CHR ''.'') (rev fname));
          stem = take (length fname - Suc n) fname;
          ext = drop (length fname - Suc n) fname
      in if CHR ''.'' \<in> set fname \<and> list_ex (\<lambda>x. x \<noteq> CHR ''.'') stem
         then (dir @ stem, ext) else (p, ''''))"

text \<open>\<open>os.path.basename\<close> and \<open>os.path.join\<close> of two components.\<close>

definition basename :: "string \<Rightarrow> string" where
  "basename p = after_last_slash p"

definition join :: "string \<Rightarrow> string \<Rightarrow> string" where
  "join a b =
     (if startswith b ''/'' then b
      else if a = '''' \<or> endswith a ''/'' then a @ b
      else a @ ''/'' @ b)"

text \<open>The candidate \<open>f"{base} ({i}){ext}"\<close>.\<close>

definition candidate :: "string \<Rightarrow> string \<Rightarrow> nat \<Rightarrow> string" where
  "candidate base ext i = base @ '' ('' @ str_nat i @ '')'' @ ext"

lemma less_power_length_str_nat: "n < 10 ^ length (str_nat n)"
proof (induction n rule: str_nat.induct)
  case (1 n)
  show ?case
  proof (cases "n < 10")
    case True
    then show ?thesis by (simp add: str_nat.simps [of n])
  next
    case False
    with 1 have "n div 10 < 10 ^ length (str_nat (n div 10))" by simp
    then have "n < 10 * 10 ^ length (str_nat (n div 10))" by linarith
    with False show ?thesis by (simp add: str_nat.simps [of n])
  qed
qed

lemma existing_candidate_bound:
  assumes "path_exists fs (candidate base ext i)"
  shows "i < 10 ^ Max (insert 0 (length ` set fs))"
proof -
  have "length (candidate base ext i) \<le> Max (insert 0 (length ` set fs))"
    using assms by (intro Max_ge) (auto simp: path_exists_def)
  then have "length (str_nat i) \<le> Max (insert 0 (length ` set fs))"
    by (simp add: candidate_def)
  then have "(10::nat) ^ length (str_nat i) \<le> 10 ^ Max (insert 0 (length ` set fs))"
    by (intro power_increasing) auto
  with less_power_length_str_nat [of i] show ?thesis by linarith
qed

text \<open>The \<open>while True\<close> loop of \<open>ensure_unique_path\<close>, from the counter \<open>i\<close> on. It ends
  because the file system is finite: a candidate longer than every existing path is free.\<close>

function ensure_unique_loop :: "string list \<Rightarrow> string \<Rightarrow> string \<Rightarrow> nat \<Rightarrow> string" where
  "ensure_unique_loop fs base ext i =
     (if \<not> path_exists fs (candidate base ext i) then candidate base ext i
      else ensure_unique_loop fs base ext (i + 1))"
  by pat_completeness auto
termination
proof (relation "measure (\<lambda>(fs, base, ext, i). 10 ^ Max (insert 0 (length ` set fs)) - i)")
  show "wf (measure (\<lambda>(fs, base, ext, i). 10 ^ Max (insert 0 (length ` set fs)) - i))"
    by simp
next
  fix fs :: "string list" and base ext :: string and i :: nat
  assume "\<not> \<not> path_exists fs (candidate base ext i)"
  then have "i < 10 ^ Max (insert 0 (length ` set fs))"
    using existing_candidate_bound by blast
  then show "((fs, base, ext, i + 1), (fs, base, ext, i))
      \<in> measure (\<lambda>(fs, base, ext, i). 10 ^ Max (insert 0 (length ` set fs)) - i)"
    by simp
qed

declare ensure_unique_loop.simps [simp del]

definition ensure_unique_path :: "string list \<Rightarrow> string \<Rightarrow> string" where
  "ensure_unique_path fs p =
     (if \<not> path_exists fs p then p
      else let (base, ext) = splitext p in ensure_unique_loop fs base ext 1)"

section \<open>The exclusion policy\<close>

text \<open>
  The state of \<open>urllib.robotparser.RobotFileParser\<close> that \<open>can_fetch\<close> and
  \<open>crawl_delay\<close> read. \<open>last_checked\<close> is a time stamp in the library, 0 until
  \<open>modified()\<close> is called; only whether it is set is read. The parsed rule table is
  kept as what it decides for the crawler's user agent: \<open>rules_allow url\<close> is the
  result of the loop over the entries and the default entry (true when no entry
  applies), \<open>rules_delay\<close> the crawl delay of the entry that applies.
\<close>

record robot_file_parser =
  disallow_all :: bool
  allow_all :: bool
  last_checked :: bool
  rules_allow :: "string \<Rightarrow> bool"
  rules_delay :: "int option"

text \<open>What \<open>urlopen\<close> of the robots file does when \<open>read()\<close> calls it: it raises an
  exception other than \<open>HTTPError\<close> (no connection, or the body does not decode),
  it raises \<open>HTTPError\<close> with a status code, or it returns a body that \<open>parse\<close>
  turns into a rule table.\<close>

datatype robots_fetch =
    RobotsRaises
  | RobotsHTTPError int
  | RobotsBody "string \<Rightarrow> bool" "int option"

definition new_robot_file_parser :: robot_file_parser where
  "new_robot_file_parser =
     \<lparr> disallow_all = False, allow_all = False, last_checked = False,
       rules_allow = (\<lambda>_. True), rules_delay = None \<rparr>"

text \<open>\<open>rp.read()\<close>: \<open>None\<close> when it raises.\<close>

definition robots_read :: "robots_fetch \<Rightarrow> robot_file_parser \<Rightarrow> robot_file_parser option" where
  "robots_read f rp =
     (case f of
        RobotsRaises \<Rightarrow> None
      | RobotsHTTPError code \<Rightarrow>
          Some (if code = 401 \<or> code = 403 then rp\<lparr>disallow_all := True\<rparr>
                else if 400 \<le> code \<and> code < 500 then rp\<lparr>allow_all := True\<rparr>
                else rp)
      | RobotsBody allow dl \<Rightarrow>
          Some (rp\<lparr>last_checked := True, rules_allow := allow, rules_delay := dl\<rparr>))"


definition can_fetch :: "robot_file_parser \<Rightarrow> string \<Rightarrow> bool" where
  "can_fetch rp url =
     (if disallow_all rp then False
      else if allow_all rp then True
      else if \<not> last_checked rp then False
      else rules_allow rp url)"

definition allowed_by_robots :: "robot_file_parser \<Rightarrow> string \<Rightarrow> bool" where
  "allowed_by_robots rp url = can_fetch rp url"

definition crawl_delay :: "robot_file_parser \<Rightarrow> int option" where
  "crawl_delay rp = (if \<not> last_checked rp then None else rules_delay rp)"

definition robots_crawl_delay :: "robot_file_parser \<Rightarrow> int" where
  "robots_crawl_delay rp = (case crawl_delay rp of None \<Rightarrow> 0 | Some cd \<Rightarrow> cd)"

section \<open>The network and the crawl state\<close>

text \<open>
  What the crawl does to the outside, in program order: the requests it sends and
  the pauses it makes, and each \<open>popleft\<close> of the frontier. The trace is bookkeeping
  of the model; no branch of the crawl reads it.
\<close>

datatype event =
    Popleft string int
  | GetPage string
  | HeadProbe string
  | Download string
  | Sleep real

text \<open>The body of a download: \<open>session.get\<close> or \<open>raise_for_status\<close> raises a
  \<open>RequestException\<close> before the file is opened, the stream breaks with one after
  it was opened, or the stream is written to its end.\<close>

datatype stream_outcome = GetFails | StreamFails | StreamCompletes

text \<open>
  The network. Every answer may depend on the URL and on all the crawl has done so far
  (the trace at the time of the request).
  \<^item> \<open>robots_txt url\<close>: the answer to the request for the robots file at \<open>url\<close>.
  \<^item> \<open>page_links tr url\<close>: \<open>None\<close> when \<open>fetch_html\<close> raises a \<open>RequestException\<close>,
    else the links \<open>extract_links\<close> finds in the page, in the order in which the crawl
    iterates over them.
  \<^item> \<open>head_content_type tr url\<close>: \<open>None\<close> when the HEAD request raises a
    \<open>RequestException\<close>, else the Content-Type header (empty when absent).
  \<^item> \<open>get_stream tr url\<close>: how the download of \<open>url\<close> goes.
\<close>

record world =
  robots_txt :: "string \<Rightarrow> robots_fetch"
  page_links :: "event list \<Rightarrow> string \<Rightarrow> string list option"
  head_content_type :: "event list \<Rightarrow> string \<Rightarrow> string option"
  get_stream :: "event list \<Rightarrow> string \<Rightarrow> stream_outcome"

record config =
  start_url :: string
  out_dir :: string
  max_depth :: int
  delay :: real
  same_path_only :: bool

record crawl_state =
  seen_pages :: "string set"
  queued :: "(string \<times> int) list"
  found_pdfs :: "string set"
  downloaded :: int
  checked_links :: int
  files :: "string list"
  trace :: "event list"

definition emit :: "event \<Rightarrow> crawl_state \<Rightarrow> crawl_state" where
  "emit e st = st\<lparr>trace := trace st @ [e]\<rparr>"

text \<open>\<open>head_is_pdf\<close>: a failed probe is "not a document".\<close>

definition head_is_pdf :: "world \<Rightarrow> string \<Rightarrow> crawl_state \<Rightarrow> bool \<times> crawl_state" where
  "head_is_pdf w url st =
     (case head_content_type w (trace st) url of
        None \<Rightarrow> (False, emit (HeadProbe url) st)
      | Some ct \<Rightarrow> (contains (lower ct) ''application/pdf'', emit (HeadProbe url) st))"

text \<open>\<open>fetch_html\<close> followed by \<open>extract_links\<close>, which returns a set: no link twice.\<close>

definition fetch_links :: "world \<Rightarrow> string \<Rightarrow> crawl_state \<Rightarrow> string list option \<times> crawl_state" where
  "fetch_links w url st =
     (case page_links w (trace st) url of
        None \<Rightarrow> (None, emit (GetPage url) st)
      | Some ls \<Rightarrow> (Some (remdups ls), emit (GetPage url) st))"

text \<open>The path \<open>download_pdf\<close> would write to, before it is made unique.\<close>

definition target_name :: "string \<Rightarrow> string \<Rightarrow> string" where
  "target_name dir url =
     (let p = path (urlparse url);
          fname = (if basename p = '''' then ''document.pdf'' else basename p);
          fname = sanitize_filename fname
      in join dir fname)"

text \<open>\<open>download_pdf\<close>: \<open>None\<close> when it raises a \<open>RequestException\<close>, else the path
  written. The target is chosen before the request is sent; the directory and the
  file are created once the response is there.\<close>

definition download_pdf :: "world \<Rightarrow> string \<Rightarrow> string \<Rightarrow> crawl_state \<Rightarrow> string option \<times> crawl_state" where
  "download_pdf w url dir st =
     (let target = ensure_unique_path (files st) (target_name dir url);
          st1 = emit (Download url) st
      in case get_stream w (trace st) url of
           GetFails \<Rightarrow> (None, st1)
         | StreamFails \<Rightarrow> (None, st1\<lparr>files := target # dir # files st1\<rparr>)
         | StreamCompletes \<Rightarrow> (Some target, st1\<lparr>files := target # dir # files st1\<rparr>))"

text \<open>\<open>load_robots\<close>: an exception of \<open>read()\<close> is swallowed, and the parser is
  returned as it is.\<close>

definition load_robots :: "world \<Rightarrow> string \<Rightarrow> robot_file_parser" where
  "load_robots w base_url =
     (let parsed = urlparse base_url;
          robots_url = scheme parsed @ ''://'' @ netloc parsed @ ''/robots.txt'';
          rp = new_robot_file_parser
      in case robots_read (robots_txt w robots_url) rp of None \<Rightarrow> rp | Some rp' \<Rightarrow> rp')"

section \<open>The crawl\<close>

text \<open>The body of \<open>for link in links\<close>, for a page dequeued at \<open>depth\<close>.\<close>

definition process_link ::
  "world \<Rightarrow> config \<Rightarrow> robot_file_parser \<Rightarrow> real \<Rightarrow> int \<Rightarrow> crawl_state \<Rightarrow> string \<Rightarrow> crawl_state" where
  "process_link w cfg rp enforced_delay depth st0 link =
     (let st1 = st0\<lparr>checked_links := checked_links st0 + 1\<rparr>;
          (is_pdf, st2) = (if looks_like_pdf link then (True, st1) else head_is_pdf w link st1)
      in if is_pdf then
           (if \<not> allowed_by_robots rp link then st2
            else if link \<notin> found_pdfs st2 then
              (let st3 = st2\<lparr>found_pdfs := insert link (found_pdfs st2)\<rparr>
               in case download_pdf w link (out_dir cfg) st3 of
                    (Some target, st4) \<Rightarrow>
                      emit (Sleep enforced_delay) (st4\<lparr>downloaded := downloaded st4 + 1\<rparr>)
                  | (None, st4) \<Rightarrow> st4)
            else st2)
         else if depth < max_depth cfg then
           (if is_same_site link (start_url cfg)
               \<and> (\<not> same_path_only cfg \<or> is_under_base_path link (start_url cfg))
            then (if link \<notin> seen_pages st2
                  then st2\<lparr>queued := queued st2 @ [(link, depth + 1)]\<rparr> else st2)
            else st2)
         else st2)"

fun process_links ::
  "world \<Rightarrow> config \<Rightarrow> robot_file_parser \<Rightarrow> real \<Rightarrow> int \<Rightarrow> crawl_state \<Rightarrow> string list \<Rightarrow> crawl_state" where
  "process_links w cfg rp enforced_delay depth st [] = st"
| "process_links w cfg rp enforced_delay depth st (link # links) =
     process_links w cfg rp enforced_delay depth
       (process_link w cfg rp enforced_delay depth st link) links"

text \<open>One pass through the body of \<open>while queued\<close>.\<close>

definition crawl_step ::
  "world \<Rightarrow> config \<Rightarrow> robot_file_parser \<Rightarrow> real \<Rightarrow> crawl_state \<Rightarrow> crawl_state" where
  "crawl_step w cfg rp enforced_delay st0 =
     (case queued st0 of
        [] \<Rightarrow> st0
      | (url, depth) # rest \<Rightarrow>
          (let st1 = emit (Popleft url depth) (st0\<lparr>queued := rest\<rparr>)
           in if url \<in> seen_pages st1 then st1
              else
                (let st2 = st1\<lparr>seen_pages := insert url (seen_pages st1)\<rparr>
                 in if \<not> is_same_site url (start_url cfg) then st2
                    else if same_path_only cfg \<and> \<not> is_under_base_path url (start_url cfg) then st2
                    else if \<not> allowed_by_robots rp url then st2
                    else
                      (case fetch_links w url st2 of
                         (None, st3) \<Rightarrow> st3
                       | (Some links, st3) \<Rightarrow>
                           process_links w cfg rp enforced_delay depth
                             (emit (Sleep enforced_delay) st3) links))))"

text \<open>The weight of a frontier entry: how many levels may still follow it.\<close>

definition weight :: "config \<Rightarrow> string \<times> int \<Rightarrow> nat" where
  "weight cfg e = nat (max_depth cfg - snd e)"

subsection \<open>What one link does to the state\<close>

lemma emit_fields [simp]:
  "seen_pages (emit e st) = seen_pages st"
  "queued (emit e st) = queued st"
  "found_pdfs (emit e st) = found_pdfs st"
  "downloaded (emit e st) = downloaded st"
  "checked_links (emit e st) = checked_links st"
  "files (emit e st) = files st"
  "trace (emit e st) = trace st @ [e]"
  by (simp_all add: emit_def)

lemma head_is_pdf_state [simp]: "snd (head_is_pdf w url st) = emit (HeadProbe url) st"
  by (simp add: head_is_pdf_def split: option.splits)

lemma download_pdf_fields [simp]:
  "seen_pages (snd (download_pdf w url dir st)) = seen_pages st"
  "queued (snd (download_pdf w url dir st)) = queued st"
  "found_pdfs (snd (download_pdf w url dir st)) = found_pdfs st"
  "downloaded (snd (download_pdf w url dir st)) = downloaded st"
  "checked_links (snd (download_pdf w url dir st)) = checked_links st"
  "trace (snd (download_pdf w url dir st)) = trace st @ [Download url]"
  by (simp_all add: download_pdf_def Let_def split: stream_outcome.splits)

lemma fetch_links_fields [simp]:
  "snd (fetch_links w url st) = emit (GetPage url) st"
  by (simp add: fetch_links_def split: option.splits)

text \<open>The links a page yields are pairwise different.\<close>

lemma fetch_links_distinct: "fst (fetch_links w url st) = Some ls \<Longrightarrow> distinct ls"
  by (auto simp: fetch_links_def split: option.splits)

text \<open>The classification of a link, and the state after it: the probe is sent only
  when the path does not end in \<open>.pdf\<close>.\<close>

definition classify :: "world \<Rightarrow> string \<Rightarrow> crawl_state \<Rightarrow> bool \<times> crawl_state" where
  "classify w link st = (if looks_like_pdf link then (True, st) else head_is_pdf w link st)"

lemma classify_fields [simp]:
  "seen_pages (snd (classify w link st)) = seen_pages st"
  "queued (snd (classify w link st)) = queued st"
  "found_pdfs (snd (classify w link st)) = found_pdfs st"
  "downloaded (snd (classify w link st)) = downloaded st"
  "checked_links (snd (classify w link st)) = checked_links st"
  "files (snd (classify w link st)) = files st"
  "trace (snd (classify w link st)) =
     trace st @ (if looks_like_pdf link then [] else [HeadProbe link])"
  by (simp_all add: classify_def)

text \<open>The three ways a link ends: a document that is downloaded, a page that is
  enqueued, or neither.\<close>

definition downloads_link :: "world \<Rightarrow> robot_file_parser \<Rightarrow> crawl_state \<Rightarrow> string \<Rightarrow> bool" where
  "downloads_link w rp st link =
     (fst (classify w link (st\<lparr>checked_links := checked_links st + 1\<rparr>))
      \<and> allowed_by_robots rp link \<and> link \<notin> found_pdfs st)"

definition enqueues_link :: "world \<Rightarrow> config \<Rightarrow> int \<Rightarrow> crawl_state \<Rightarrow> string \<Rightarrow> bool" where
  "enqueues_link w cfg depth st link =
     (\<not> fst (classify w link (st\<lparr>checked_links := checked_links st + 1\<rparr>))
      \<and> depth < max_depth cfg \<and> is_same_site link (start_url cfg)
      \<and> (\<not> same_path_only cfg \<or> is_under_base_path link (start_url cfg))
      \<and> link \<notin> seen_pages st)"

lemma process_link_classify:
  "process_link w cfg rp d depth st0 link =
     (let st1 = st0\<lparr>checked_links := checked_links st0 + 1\<rparr>;
          st2 = snd (classify w link st1)
      in if downloads_link w rp st0 link then
           (let st3 = st2\<lparr>found_pdfs := insert link (found_pdfs st2)\<rparr>;
                r = download_pdf w link (out_dir cfg) st3
            in if fst r = None then snd r
               else emit (Sleep d) ((snd r)\<lparr>downloaded := downloaded (snd r) + 1\<rparr>))
         else if enqueues_link w cfg depth st0 link
           then st2\<lparr>queued := queued st2 @ [(link, depth + 1)]\<rparr>
         else st2)"
  by (simp add: process_link_def downloads_link_def enqueues_link_def classify_def Let_def
      split_beta option.case_eq_if)

lemma process_link_seen [simp]:
  "seen_pages (process_link w cfg rp d depth st link) = seen_pages st"
  by (simp add: process_link_classify Let_def)

lemma process_link_queued:
  "queued (process_link w cfg rp d depth st link) =
     queued st @ (if enqueues_link w cfg depth st link then [(link, depth + 1)] else [])"
  by (simp add: process_link_classify Let_def downloads_link_def enqueues_link_def)

lemma process_link_found:
  "found_pdfs (process_link w cfg rp d depth st link) =
     (if downloads_link w rp st link then insert link (found_pdfs st) else found_pdfs st)"
  by (simp add: process_link_classify Let_def)

lemma process_link_trace:
  "\<exists>sl. set sl \<subseteq> {Sleep d} \<and> trace (process_link w cfg rp d depth st link) =
     trace st @ (if looks_like_pdf link then [] else [HeadProbe link])
       @ (if downloads_link w rp st link then Download link # sl else [])"
proof (cases "downloads_link w rp st link")
  case True
  show ?thesis
  proof (cases "fst (download_pdf w link (out_dir cfg)
      ((snd (classify w link (st\<lparr>checked_links := checked_links st + 1\<rparr>)))
         \<lparr>found_pdfs := insert link (found_pdfs st)\<rparr>)) = None")
    case True
    with \<open>downloads_link w rp st link\<close> show ?thesis
      by (intro exI [of _ "[]"]) (simp add: process_link_classify Let_def)
  next
    case False
    with \<open>downloads_link w rp st link\<close> show ?thesis
      by (intro exI [of _ "[Sleep d]"]) (simp add: process_link_classify Let_def)
  qed
next
  case False
  then show ?thesis
    by (intro exI [of _ "[]"]) (simp add: process_link_classify Let_def)
qed

lemma process_link_count_download:
  "count_list (trace (process_link w cfg rp d depth st link)) (Download u) =
     count_list (trace st) (Download u) + (if downloads_link w rp st link \<and> u = link then 1 else 0)"
proof -
  obtain sl where sl: "set sl \<subseteq> {Sleep d}"
    and lg: "trace (process_link w cfg rp d depth st link) =
      trace st @ (if looks_like_pdf link then [] else [HeadProbe link])
        @ (if downloads_link w rp st link then Download link # sl else [])"
    using process_link_trace by blast
  from sl have "Download u \<notin> set sl" by auto
  then have "count_list sl (Download u) = 0" by simp
  with lg show ?thesis by auto
qed

lemma process_link_count_other:
  assumes "\<And>x. e \<noteq> HeadProbe x" "\<And>x. e \<noteq> Download x" "\<And>x. e \<noteq> Sleep x"
  shows "count_list (trace (process_link w cfg rp d depth st link)) e = count_list (trace st) e"
proof -
  obtain sl where sl: "set sl \<subseteq> {Sleep d}"
    and lg: "trace (process_link w cfg rp d depth st link) =
      trace st @ (if looks_like_pdf link then [] else [HeadProbe link])
        @ (if downloads_link w rp st link then Download link # sl else [])"
    using process_link_trace by blast
  from sl assms(3) have "e \<notin> set sl" by auto
  then have "count_list sl e = 0" by simp
  with lg assms show ?thesis by auto
qed

lemma process_links_seen [simp]:
  "seen_pages (process_links w cfg rp d depth st links) = seen_pages st"
  by (induction links arbitrary: st) simp_all

lemma process_links_count_other:
  assumes "\<And>x. e \<noteq> HeadProbe x" "\<And>x. e \<noteq> Download x" "\<And>x. e \<noteq> Sleep x"
  shows "count_list (trace (process_links w cfg rp d depth st links)) e = count_list (trace st) e"
  using assms by (induction links arbitrary: st) (simp_all add: process_link_count_other)

text \<open>What a page enqueues: entries one level down, only below the maximum depth,
  and only for links in scope.\<close>

definition in_scope :: "config \<Rightarrow> string \<Rightarrow> bool" where
  "in_scope cfg url =
     (is_same_site url (start_url cfg)
      \<and> (\<not> same_path_only cfg \<or> is_under_base_path url (start_url cfg)))"

lemma process_links_queued:
  "\<exists>new. queued (process_links w cfg rp d depth st links) = queued st @ new
     \<and> (\<forall>e \<in> set new. snd e = depth + 1 \<and> depth < max_depth cfg \<and> in_scope cfg (fst e)
           \<and> fst e \<in> set links)"
proof (induction links arbitrary: st)
  case Nil
  then show ?case by simp
next
  case (Cons link links)
  obtain new where new: "queued (process_links w cfg rp d depth
        (process_link w cfg rp d depth st link) links)
      = queued (process_link w cfg rp d depth st link) @ new"
    "\<forall>e \<in> set new. snd e = depth + 1 \<and> depth < max_depth cfg \<and> in_scope cfg (fst e)
        \<and> fst e \<in> set links"
    using Cons.IH by blast
  show ?case
    by (rule exI [of _ "(if enqueues_link w cfg depth st link then [(link, depth + 1)] else []) @ new"])
      (use new in \<open>auto simp: process_link_queued enqueues_link_def in_scope_def\<close>)
qed

subsection \<open>One pass of the loop\<close>

text \<open>A dequeued URL is fetched when it is new, in scope and allowed.\<close>

definition visits :: "config \<Rightarrow> robot_file_parser \<Rightarrow> crawl_state \<Rightarrow> string \<Rightarrow> bool" where
  "visits cfg rp st url = (url \<notin> seen_pages st \<and> in_scope cfg url \<and> allowed_by_robots rp url)"

lemma crawl_step_unfold:
  assumes "queued st0 = (url, depth) # rest"
  shows "crawl_step w cfg rp d st0 =
     (let st1 = emit (Popleft url depth) (st0\<lparr>queued := rest\<rparr>)
      in if url \<in> seen_pages st0 then st1
         else
           (let st2 = st1\<lparr>seen_pages := insert url (seen_pages st0)\<rparr>
            in if \<not> visits cfg rp st0 url then st2
               else (case fst (fetch_links w url st2) of
                       None \<Rightarrow> emit (GetPage url) st2
                     | Some links \<Rightarrow>
                         process_links w cfg rp d depth
                           (emit (Sleep d) (emit (GetPage url) st2)) links)))"
  using assms
  by (simp add: crawl_step_def visits_def in_scope_def Let_def split_beta option.case_eq_if)

lemma crawl_step_queued:
  assumes "queued st = (url, depth) # rest"
  shows "\<exists>new. queued (crawl_step w cfg rp d st) = rest @ new
     \<and> (\<forall>e \<in> set new. snd e = depth + 1 \<and> depth < max_depth cfg \<and> in_scope cfg (fst e))"
proof -
  have base: "\<exists>new. rest = rest @ new
     \<and> (\<forall>e \<in> set new. snd e = depth + 1 \<and> depth < max_depth cfg \<and> in_scope cfg (fst e))"
    by simp
  show ?thesis
  proof (cases "visits cfg rp st url \<and> fst (fetch_links w url
      ((emit (Popleft url depth) (st\<lparr>queued := rest\<rparr>))\<lparr>seen_pages := insert url (seen_pages st)\<rparr>)) \<noteq> None")
    case True
    then obtain links where links: "fst (fetch_links w url
      ((emit (Popleft url depth) (st\<lparr>queued := rest\<rparr>))\<lparr>seen_pages := insert url (seen_pages st)\<rparr>))
        = Some links" by blast
    from True have "url \<notin> seen_pages st" by (simp add: visits_def)
    with True links have "crawl_step w cfg rp d st =
        process_links w cfg rp d depth (emit (Sleep d) (emit (GetPage url)
          ((emit (Popleft url depth) (st\<lparr>queued := rest\<rparr>))\<lparr>seen_pages := insert url (seen_pages st)\<rparr>)))
          links"
      by (simp add: crawl_step_unfold [OF assms] Let_def)
    moreover have "queued (emit (Sleep d) (emit (GetPage url)
          ((emit (Popleft url depth) (st\<lparr>queued := rest\<rparr>))\<lparr>seen_pages := insert url (seen_pages st)\<rparr>)))
        = rest" by (simp add: emit_def)
    ultimately show ?thesis
      using process_links_queued [of w cfg rp d depth "emit (Sleep d) (emit (GetPage url)
          ((emit (Popleft url depth) (st\<lparr>queued := rest\<rparr>))\<lparr>seen_pages := insert url (seen_pages st)\<rparr>))"
          links]
      by auto
  next
    case False
    then have "queued (crawl_step w cfg rp d st) = rest"
      by (auto simp: crawl_step_unfold [OF assms] Let_def emit_def split: option.splits)
    then show ?thesis by simp
  qed
qed

lemma crawl_step_decreases:
  assumes "queued st \<noteq> []"
  shows "(mset (map (weight cfg) (queued (crawl_step w cfg rp d st))),
          mset (map (weight cfg) (queued st))) \<in> mult {(a, b). a < b}"
proof -
  obtain url depth rest where q: "queued st = (url, depth) # rest"
    using assms by (cases "queued st") auto
  obtain new where new: "queued (crawl_step w cfg rp d st) = rest @ new"
    "\<forall>e \<in> set new. snd e = depth + 1 \<and> depth < max_depth cfg \<and> in_scope cfg (fst e)"
    using crawl_step_queued [OF q] by blast
  have "\<forall>k \<in> set_mset (mset (map (weight cfg) new)).
      \<exists>j \<in> set_mset {#weight cfg (url, depth)#}. (k, j) \<in> {(a, b). a < b}"
    using new(2) by (auto simp: weight_def)
  then have "(mset (map (weight cfg) rest) + mset (map (weight cfg) new),
      mset (map (weight cfg) rest) + {#weight cfg (url, depth)#}) \<in> mult {(a, b). a < b}"
    by (intro one_step_implies_mult) simp_all
  then show ?thesis by (simp add: q new(1))
qed

text \<open>The loop \<open>while queued\<close>. It ends for every network: an entry is replaced by
  finitely many entries of smaller weight.\<close>

function crawl_loop ::
  "world \<Rightarrow> config \<Rightarrow> robot_file_parser \<Rightarrow> real \<Rightarrow> crawl_state \<Rightarrow> crawl_state" where
  "crawl_loop w cfg rp d st =
     (if queued st = [] then st else crawl_loop w cfg rp d (crawl_step w cfg rp d st))"
  by pat_completeness auto
termination
proof (relation "inv_image (mult {(a :: nat, b). a < b})
    (\<lambda>(w, cfg, rp, d, st). mset (map (weight cfg) (queued st)))")
  show "wf (inv_image (mult {(a :: nat, b). a < b})
      (\<lambda>(w, cfg, rp, d, st). mset (map (weight cfg) (queued st))))"
    using wf_less by (intro wf_inv_image wf_mult) (simp add: less_than_def [symmetric] pred_nat_def)
next
  fix w :: world and cfg :: config and rp :: robot_file_parser and d :: real and st :: crawl_state
  assume "queued st \<noteq> []"
  then show "((w, cfg, rp, d, crawl_step w cfg rp d st), (w, cfg, rp, d, st))
      \<in> inv_image (mult {(a :: nat, b). a < b})
          (\<lambda>(w, cfg, rp, d, st). mset (map (weight cfg) (queued st)))"
    using crawl_step_decreases [of st cfg w rp d] by simp
qed

declare crawl_loop.simps [simp del]

text \<open>The state before the loop, the delay in force, and the whole crawl; the result
  is the state when the frontier is empty, from which the summary is printed.\<close>

definition initial_state :: "config \<Rightarrow> string list \<Rightarrow> crawl_state" where
  "initial_state cfg fs =
     \<lparr> seen_pages = {}, queued = [(start_url cfg, 0)], found_pdfs = {}, downloaded = 0,
       checked_links = 0, files = fs, trace = [] \<rparr>"

definition enforced_delay :: "config \<Rightarrow> robot_file_parser \<Rightarrow> real" where
  "enforced_delay cfg rp = max (delay cfg) (real_of_int (robots_crawl_delay rp))"

definition crawl_and_download :: "world \<Rightarrow> config \<Rightarrow> string list \<Rightarrow> crawl_state" where
  "crawl_and_download w cfg fs =
     (let rp = load_robots w (start_url cfg)
      in crawl_loop w cfg rp (enforced_delay cfg rp) (initial_state cfg fs))"

text \<open>The numbers of the summary: pages visited, links checked, PDFs found, downloaded.\<close>

definition summary :: "crawl_state \<Rightarrow> nat \<times> int \<times> nat \<times> int" where
  "summary st = (card (seen_pages st), checked_links st, card (found_pdfs st), downloaded st)"

text \<open>The states at the head of the loop.\<close>

inductive reachable :: "world \<Rightarrow> config \<Rightarrow> string list \<Rightarrow> crawl_state \<Rightarrow> bool"
  for w :: world and cfg :: config and fs :: "string list" where
  reachable_init: "reachable w cfg fs (initial_state cfg fs)"
| reachable_step: "reachable w cfg fs st \<Longrightarrow> queued st \<noteq> [] \<Longrightarrow>
     reachable w cfg fs
       (crawl_step w cfg (load_robots w (start_url cfg))
          (enforced_delay cfg (load_robots w (start_url cfg))) st)"

text \<open>The states inside a pass of the loop: after each link of the page that is
  being expanded.\<close>

inductive in_page :: "world \<Rightarrow> config \<Rightarrow> string list \<Rightarrow> crawl_state \<Rightarrow> bool"
  for w :: world and cfg :: config and fs :: "string list" where
  in_page_links: "reachable w cfg fs st \<Longrightarrow> queued st = (url, depth) # rest \<Longrightarrow>
     visits cfg (load_robots w (start_url cfg)) st url \<Longrightarrow>
     fst (fetch_links w url
       ((emit (Popleft url depth) (st\<lparr>queued := rest\<rparr>))\<lparr>seen_pages := insert url (seen_pages st)\<rparr>))
       = Some links \<Longrightarrow>
     in_page w cfg fs
       (process_links w cfg (load_robots w (start_url cfg))
          (enforced_delay cfg (load_robots w (start_url cfg))) depth
          (emit (Sleep (enforced_delay cfg (load_robots w (start_url cfg))))
             (emit (GetPage url)
                ((emit (Popleft url depth) (st\<lparr>queued := rest\<rparr>))
                   \<lparr>seen_pages := insert url (seen_pages st)\<rparr>)))
          (take n links))"

section \<open>Example networks\<close>

text \<open>A network on which every download completes, and a state with nothing in it.\<close>

definition two_pdf_world :: world where
  "two_pdf_world =
     \<lparr> robots_txt = (\<lambda>_. RobotsBody (\<lambda>_. True) None),
       page_links = (\<lambda>_ _. None),
       head_content_type = (\<lambda>_ _. None),
       get_stream = (\<lambda>_ _. StreamCompletes) \<rparr>"

definition empty_state :: crawl_state where
  "empty_state =
     \<lparr> seen_pages = {}, queued = [], found_pdfs = {}, downloaded = 0, checked_links = 0,
       files = [], trace = [] \<rparr>"


text \<open>
  The end-to-end scenario: the seed page links to a document, to a second page (which
  links to a second document) and to a page on another host. No probe answers with a
  PDF content type, every download completes, the policy allows everything.
\<close>

definition e2e_world :: world where
  "e2e_world =
     \<lparr> robots_txt = (\<lambda>_. RobotsBody (\<lambda>_. True) None),
       page_links = (\<lambda>_ url.
          if url = ''http://site/ref/''
            then Some [''http://site/ref/a.pdf'', ''http://site/ref/page2'', ''http://other/x'']
          else if url = ''http://site/ref/page2'' then Some [''http://site/ref/b.pdf'']
          else None),
       head_content_type = (\<lambda>_ _. Some ''text/html''),
       get_stream = (\<lambda>_ _. StreamCompletes) \<rparr>"

definition e2e_config :: config where
  "e2e_config =
     \<lparr> start_url = ''http://site/ref/'', out_dir = ''out'', max_depth = 2, delay = 1 / 2,
       same_path_only = True \<rparr>"

text \<open>The seed page links to a document on another host.\<close>

definition offsite_pdf_world :: world where
  "offsite_pdf_world =
     \<lparr> robots_txt = (\<lambda>_. RobotsBody (\<lambda>_. True) None),
       page_links = (\<lambda>_ url.
          if url = ''http://site/ref/'' then Some [''http://other/doc.pdf''] else None),
       head_content_type = (\<lambda>_ _. Some ''text/html''),
       get_stream = (\<lambda>_ _. StreamCompletes) \<rparr>"

text \<open>The seed page links to a page that the policy disallows.\<close>

definition private_world :: world where
  "private_world =
     \<lparr> robots_txt = (\<lambda>_. RobotsBody (\<lambda>url. url \<noteq> ''http://site/ref/private'') None),
       page_links = (\<lambda>_ url.
          if url = ''http://site/ref/'' then Some [''http://site/ref/private''] else None),
       head_content_type = (\<lambda>_ _. Some ''text/html''),
       get_stream = (\<lambda>_ _. StreamCompletes) \<rparr>"

text \<open>A cycle: page \<open>a\<close> links to page \<open>b\<close>, and \<open>b\<close> back to \<open>a\<close>.\<close>

definition cycle_world :: world where
  "cycle_world =
     \<lparr> robots_txt = (\<lambda>_. RobotsBody (\<lambda>_. True) None),
       page_links = (\<lambda>_ url.
          if url = ''http://site/a'' then Some [''http://site/b'']
          else if url = ''http://site/b'' then Some [''http://site/a'']
          else None),
       head_content_type = (\<lambda>_ _. Some ''text/html''),
       get_stream = (\<lambda>_ _. StreamCompletes) \<rparr>"

definition cycle_config :: config where
  "cycle_config =
     \<lparr> start_url = ''http://site/a'', out_dir = ''out'', max_depth = 2, delay = 1 / 2,
       same_path_only = False \<rparr>"

text \<open>A diamond: the seed links to \<open>a\<close> and \<open>b\<close>, and both link to \<open>c\<close>.\<close>

definition diamond_world :: world where
  "diamond_world =
     \<lparr> robots_txt = (\<lambda>_. RobotsBody (\<lambda>_. True) None),
       page_links = (\<lambda>_ url.
          if url = ''http://site/'' then Some [''http://site/a'', ''http://site/b'']
          else if url = ''http://site/a'' then Some [''http://site/c'']
          else if url = ''http://site/b'' then Some [''http://site/c'']
          else if url = ''http://site/c'' then Some []
          else None),
       head_content_type = (\<lambda>_ _. Some ''text/html''),
       get_stream = (\<lambda>_ _. StreamCompletes) \<rparr>"

definition diamond_config :: config where
  "diamond_config =
     \<lparr> start_url = ''http://site/'', out_dir = ''out'', max_depth = 2, delay = 1 / 2,
       same_path_only = True \<rparr>"

text \<open>The robots file cannot be fetched: the request raises.\<close>

definition robots_down_world :: world where
  "robots_down_world =
     \<lparr> robots_txt = (\<lambda>_. RobotsRaises),
       page_links = (\<lambda>_ url.
          if url = ''http://site/ref/'' then Some [''http://site/ref/a.pdf''] else None),
       head_content_type = (\<lambda>_ _. Some ''text/html''),
       get_stream = (\<lambda>_ _. StreamCompletes) \<rparr>"
section \<open>Properties of the scope policy and of file names\<close>

lemma startswith_iff: "startswith s p \<longleftrightarrow> (\<exists>r. s = p @ r)"
  by (induction s p rule: startswith.induct) auto

text \<open>
  Claim C2, as amended. \<open>is_under_base_path url base\<close> holds exactly when the two URLs
  have the same authority and the path of \<open>url\<close> begins with the path of \<open>base\<close>,
  character by character: \<open>/a/b\<close> is under \<open>/a\<close>, and so is \<open>/ab\<close>; \<open>/b\<close> is not,
  nor is a path on another authority.
\<close>

theorem is_under_base_path_string_prefix:
  "(is_under_base_path url base \<longleftrightarrow>
      is_same_site url base \<and> (\<exists>r. path (urlparse url) = path (urlparse base) @ r))
   \<and> is_under_base_path ''http://h/a/b'' ''http://h/a''
   \<and> is_under_base_path ''http://h/ab'' ''http://h/a''
   \<and> \<not> is_under_base_path ''http://h/b'' ''http://h/a''
   \<and> \<not> is_under_base_path ''http://g/a/b'' ''http://h/a''"
proof -
  have "is_under_base_path url base \<longleftrightarrow>
      is_same_site url base \<and> (\<exists>r. path (urlparse url) = path (urlparse base) @ r)"
    by (simp add: is_under_base_path_def is_same_site_def Let_def startswith_iff)
  moreover have "is_under_base_path ''http://h/a/b'' ''http://h/a''" by code_simp
  moreover have "is_under_base_path ''http://h/ab'' ''http://h/a''" by code_simp
  moreover have "\<not> is_under_base_path ''http://h/b'' ''http://h/a''" by code_simp
  moreover have "\<not> is_under_base_path ''http://g/a/b'' ''http://h/a''" by code_simp
  ultimately show ?thesis by blast
qed

text \<open>
  Claim C2 as stated fails: the path \<open>/ab\<close> is accepted as under the base path \<open>/a\<close>,
  although \<open>/a\<close> is not a prefix of it by whole segments.
\<close>

theorem is_under_base_path_not_segment_prefix:
  "path (urlparse ''http://h/ab'') = ''/ab'' \<and> path (urlparse ''http://h/a'') = ''/a''
   \<and> is_under_base_path ''http://h/ab'' ''http://h/a''"
  by code_simp

text \<open>
  Claim C9, as amended. The sanitized name has the length of the name, capped at 180,
  and is the tail of the name of that length in which every character is kept when it
  is a word character, a hyphen, a period, a parenthesis, a plus or any whitespace
  character (the class \<open>\s\<close>: space, tab, newline and the others), and is an underscore
  otherwise.
\<close>

theorem sanitize_filename_chars:
  "length (sanitize_filename name) = min 180 (length name) \<and>
   (\<forall>i < length (sanitize_filename name).
      sanitize_filename name ! i =
        (let c = name ! (length name - length (sanitize_filename name) + i)
         in if re_word c \<or> c \<in> set ''-.()+'' \<or> re_space c then c else CHR ''_''))"
  by (auto simp: sanitize_filename_def Let_def kept_char_def min_def)

theorem sanitize_filename_chars_witness:
  "length (sanitize_filename ''a/b'') = 3 \<and> 1 < length (sanitize_filename ''a/b'')
   \<and> sanitize_filename ''a/b'' ! 1 = CHR ''_'' \<and> sanitize_filename ''a/b'' ! 2 = CHR ''b''"
proof -
  note t = sanitize_filename_chars [of "''a/b''"]
  have len: "length (sanitize_filename ''a/b'') = 3"
    using t by simp
  have "sanitize_filename ''a/b'' ! 1 =
      (let c = ''a/b'' ! (length ''a/b'' - length (sanitize_filename ''a/b'') + 1)
       in if re_word c \<or> c \<in> set ''-.()+'' \<or> re_space c then c else CHR ''_'')"
    using t len by simp
  then have one: "sanitize_filename ''a/b'' ! 1 = CHR ''_''"
    by (simp add: len re_word_def re_space_def)
  have "sanitize_filename ''a/b'' ! 2 =
      (let c = ''a/b'' ! (length ''a/b'' - length (sanitize_filename ''a/b'') + 2)
       in if re_word c \<or> c \<in> set ''-.()+'' \<or> re_space c then c else CHR ''_'')"
    using t len by simp
  then have two: "sanitize_filename ''a/b'' ! 2 = CHR ''b''"
    by (simp add: len re_word_def re_space_def)
  show ?thesis using len one two by simp
qed

text \<open>
  Claim C9 as stated fails: a tab or a form feed is neither a word character, a hyphen,
  a period, a parenthesis, a plus nor the space character, and it is kept; a form feed
  in the last segment of a URL path reaches the name of the downloaded file.
\<close>

theorem sanitize_filename_keeps_tab:
  "sanitize_filename [CHR ''a'', CHR 0x09, CHR ''b''] = [CHR ''a'', CHR 0x09, CHR ''b'']
   \<and> \<not> re_word (CHR 0x09) \<and> CHR 0x09 \<notin> set ''-.()+ ''
   \<and> sanitize_filename [CHR ''a'', CHR 0x0C, CHR ''b''] = [CHR ''a'', CHR 0x0C, CHR ''b'']
   \<and> \<not> re_word (CHR 0x0C) \<and> CHR 0x0C \<notin> set ''-.()+ ''
   \<and> path (urlparse (''http://site/a'' @ [CHR 0x0C] @ ''b'')) = ''/a'' @ [CHR 0x0C] @ ''b''"
  by code_simp

subsection \<open>Unique paths\<close>

lemma ensure_unique_loop_smallest:
  "\<exists>n\<ge>i. ensure_unique_loop fs base ext i = candidate base ext n
      \<and> \<not> path_exists fs (candidate base ext n)
      \<and> (\<forall>m. i \<le> m \<and> m < n \<longrightarrow> path_exists fs (candidate base ext m))"
proof (induction fs base ext i rule: ensure_unique_loop.induct)
  case (1 fs base ext i)
  show ?case
  proof (cases "path_exists fs (candidate base ext i)")
    case False
    then show ?thesis
      by (intro exI [of _ i]) (auto simp: ensure_unique_loop.simps [of fs base ext i])
  next
    case True
    then obtain n where n: "i + 1 \<le> n"
        "ensure_unique_loop fs base ext (i + 1) = candidate base ext n"
        "\<not> path_exists fs (candidate base ext n)"
        "\<forall>m. i + 1 \<le> m \<and> m < n \<longrightarrow> path_exists fs (candidate base ext m)"
      using 1 by blast
    have "\<forall>m. i \<le> m \<and> m < n \<longrightarrow> path_exists fs (candidate base ext m)"
    proof (intro allI impI)
      fix m assume m: "i \<le> m \<and> m < n"
      show "path_exists fs (candidate base ext m)"
      proof (cases "m = i")
        case True
        with \<open>path_exists fs (candidate base ext i)\<close> show ?thesis by simp
      next
        case False
        with m have "i + 1 \<le> m \<and> m < n" by simp
        with n(4) show ?thesis by blast
      qed
    qed
    with True n show ?thesis
      by (intro exI [of _ n]) (simp add: ensure_unique_loop.simps [of fs base ext i])
  qed
qed

lemma splitext_append: "fst (splitext p) @ snd (splitext p) = p"
proof -
  have "take (length p - length (after_last_slash p)) p @ after_last_slash p = p"
  proof -
    have "after_last_slash p = drop (length p - length (after_last_slash p)) p"
      unfolding after_last_slash_def
      by (metis length_rev rev_rev_ident takeWhile_eq_take rev_take)
    then show ?thesis by (metis append_take_drop_id)
  qed
  then show ?thesis
    by (auto simp: splitext_def Let_def)
qed

lemma candidate_length:
  "length (candidate (fst (splitext p)) (snd (splitext p)) n) = length p + 3 + length (str_nat n)"
proof -
  have "length (fst (splitext p)) + length (snd (splitext p)) = length p"
    by (metis length_append splitext_append)
  then show ?thesis by (simp add: candidate_def)
qed

lemma ensure_unique_path_free: "\<not> path_exists fs (ensure_unique_path fs p)"
  using ensure_unique_loop_smallest [of 1 fs "fst (splitext p)" "snd (splitext p)"]
  by (auto simp: ensure_unique_path_def split_beta)

lemma sanitize_filename_no_slash: "CHR ''/'' \<notin> set (sanitize_filename n)"
proof -
  have "\<not> kept_char (CHR ''/'')"
    by (simp add: kept_char_def re_word_def re_space_def)
  then have "CHR ''/'' \<notin> set (map (\<lambda>c. if kept_char c then c else CHR ''_'') n)"
    by auto
  then show ?thesis
    by (auto simp: sanitize_filename_def Let_def dest: in_set_dropD)
qed

lemma sanitize_filename_nonempty: "n \<noteq> [] \<Longrightarrow> sanitize_filename n \<noteq> []"
  by (auto simp: sanitize_filename_def Let_def)

lemma target_name_longer: "length dir < length (target_name dir url)"
proof -
  define f where "f = sanitize_filename
    (if basename (path (urlparse url)) = '''' then ''document.pdf''
     else basename (path (urlparse url)))"
  have ne: "f \<noteq> []" unfolding f_def by (rule sanitize_filename_nonempty) simp
  have "CHR ''/'' \<notin> set f" unfolding f_def by (rule sanitize_filename_no_slash)
  with ne have "\<not> startswith f ''/''" by (cases f) auto
  with ne have "length dir < length (join dir f)" by (simp add: join_def)
  then show ?thesis by (simp add: target_name_def Let_def f_def)
qed

lemma download_pdf_completes:
  assumes "get_stream w (trace st) url = StreamCompletes"
  shows "fst (download_pdf w url dir st) = Some (ensure_unique_path (files st) (target_name dir url))"
    and "files (snd (download_pdf w url dir st)) =
      ensure_unique_path (files st) (target_name dir url) # dir # files st"
  using assms by (simp_all add: download_pdf_def Let_def)

lemma download_pdf_target:
  "fst (download_pdf w url dir st) = Some t \<Longrightarrow> t = ensure_unique_path (files st) (target_name dir url)"
  by (auto simp: download_pdf_def Let_def split: stream_outcome.splits)

lemma second_download_suffixed:
  assumes same: "target_name dir u1 = target_name dir u2"
    and free: "\<not> path_exists (files st) (target_name dir u1)"
    and free1: "\<not> path_exists (files st)
        (candidate (fst (splitext (target_name dir u1))) (snd (splitext (target_name dir u1))) 1)"
    and ok1: "get_stream w (trace st) u1 = StreamCompletes"
    and ok2: "get_stream w (trace (snd (download_pdf w u1 dir st))) u2 = StreamCompletes"
  shows "fst (download_pdf w u1 dir st) = Some (target_name dir u1)"
    and "fst (download_pdf w u2 dir (snd (download_pdf w u1 dir st))) =
      Some (candidate (fst (splitext (target_name dir u1))) (snd (splitext (target_name dir u1))) 1)"
    and "candidate (fst (splitext (target_name dir u1))) (snd (splitext (target_name dir u1))) 1
      \<noteq> target_name dir u1"
proof -
  let ?t = "target_name dir u1"
  let ?c = "candidate (fst (splitext ?t)) (snd (splitext ?t)) 1"
  have first: "ensure_unique_path (files st) ?t = ?t"
    using free by (simp add: ensure_unique_path_def)
  then show "fst (download_pdf w u1 dir st) = Some ?t"
    by (simp add: download_pdf_completes [OF ok1])
  have fs1: "files (snd (download_pdf w u1 dir st)) = ?t # dir # files st"
    by (simp add: download_pdf_completes [OF ok1] first)
  have len: "length ?c = length ?t + 3 + length (str_nat 1)"
    by (rule candidate_length)
  then show ne: "?c \<noteq> ?t" by auto
  from len target_name_longer [of dir u1] have "?c \<noteq> dir" by auto
  with ne free1 have c_free: "\<not> path_exists (?t # dir # files st) ?c"
    by (simp add: path_exists_def)
  have "ensure_unique_loop (?t # dir # files st) (fst (splitext ?t)) (snd (splitext ?t)) 1 = ?c"
    using c_free by (subst ensure_unique_loop.simps) simp
  then have "ensure_unique_path (?t # dir # files st) ?t = ?c"
    by (simp add: ensure_unique_path_def path_exists_def split_beta)
  then show "fst (download_pdf w u2 dir (snd (download_pdf w u1 dir st))) = Some ?c"
    by (simp add: download_pdf_completes [OF ok2] fs1 same [symmetric])
qed

text \<open>
  Claim C8. When the target exists, \<open>ensure_unique_path\<close> returns the candidate
  \<open>base (N)ext\<close> (the path split at its extension, with \<open> (N)\<close> in between) for
  the smallest \<open>N \<ge> 1\<close> whose candidate does not exist; the path it returns never
  exists, so a download never writes over an existing file; and of two completed
  downloads into a directory free of both names whose URLs give the same file name,
  the first gets the name and the second the name suffixed \<open> (1)\<close> before the extension.
\<close>

theorem ensure_unique_path_smallest_free:
  "(path_exists fs p \<longrightarrow>
      (\<exists>n\<ge>1. ensure_unique_path fs p = candidate (fst (splitext p)) (snd (splitext p)) n
         \<and> fst (splitext p) @ snd (splitext p) = p
         \<and> \<not> path_exists fs (candidate (fst (splitext p)) (snd (splitext p)) n)
         \<and> (\<forall>m. 1 \<le> m \<and> m < n \<longrightarrow>
               path_exists fs (candidate (fst (splitext p)) (snd (splitext p)) m))))
   \<and> \<not> path_exists fs (ensure_unique_path fs p)
   \<and> (\<forall>t. fst (download_pdf w url dir st) = Some t \<longrightarrow> \<not> path_exists (files st) t)
   \<and> (target_name dir u1 = target_name dir u2
        \<and> \<not> path_exists (files st) (target_name dir u1)
        \<and> \<not> path_exists (files st)
            (candidate (fst (splitext (target_name dir u1))) (snd (splitext (target_name dir u1))) 1)
        \<and> get_stream w (trace st) u1 = StreamCompletes
        \<and> get_stream w (trace (snd (download_pdf w u1 dir st))) u2 = StreamCompletes
      \<longrightarrow> fst (download_pdf w u1 dir st) = Some (target_name dir u1)
        \<and> fst (download_pdf w u2 dir (snd (download_pdf w u1 dir st))) =
            Some (candidate (fst (splitext (target_name dir u1)))
                    (snd (splitext (target_name dir u1))) 1)
        \<and> candidate (fst (splitext (target_name dir u1))) (snd (splitext (target_name dir u1))) 1
            \<noteq> target_name dir u1)"
proof (intro conjI)
  show "path_exists fs p \<longrightarrow>
      (\<exists>n\<ge>1. ensure_unique_path fs p = candidate (fst (splitext p)) (snd (splitext p)) n
         \<and> fst (splitext p) @ snd (splitext p) = p
         \<and> \<not> path_exists fs (candidate (fst (splitext p)) (snd (splitext p)) n)
         \<and> (\<forall>m. 1 \<le> m \<and> m < n \<longrightarrow>
               path_exists fs (candidate (fst (splitext p)) (snd (splitext p)) m)))"
    using ensure_unique_loop_smallest [of 1 fs "fst (splitext p)" "snd (splitext p)"]
    by (auto simp: ensure_unique_path_def split_beta splitext_append)
  show "\<not> path_exists fs (ensure_unique_path fs p)"
    by (rule ensure_unique_path_free)
  show "\<forall>t. fst (download_pdf w url dir st) = Some t \<longrightarrow> \<not> path_exists (files st) t"
    using download_pdf_target ensure_unique_path_free by blast
  show "target_name dir u1 = target_name dir u2
        \<and> \<not> path_exists (files st) (target_name dir u1)
        \<and> \<not> path_exists (files st)
            (candidate (fst (splitext (target_name dir u1))) (snd (splitext (target_name dir u1))) 1)
        \<and> get_stream w (trace st) u1 = StreamCompletes
        \<and> get_stream w (trace (snd (download_pdf w u1 dir st))) u2 = StreamCompletes
      \<longrightarrow> fst (download_pdf w u1 dir st) = Some (target_name dir u1)
        \<and> fst (download_pdf w u2 dir (snd (download_pdf w u1 dir st))) =
            Some (candidate (fst (splitext (target_name dir u1)))
                    (snd (splitext (target_name dir u1))) 1)
        \<and> candidate (fst (splitext (target_name dir u1))) (snd (splitext (target_name dir u1))) 1
            \<noteq> target_name dir u1"
    using second_download_suffixed [of dir u1 u2 st w] by blast
qed

theorem ensure_unique_path_smallest_free_witness:
  "path_exists [''out/a.pdf'', ''out/a (1).pdf''] ''out/a.pdf''
   \<and> ensure_unique_path [''out/a.pdf'', ''out/a (1).pdf''] ''out/a.pdf'' = ''out/a (2).pdf''
   \<and> \<not> path_exists [''out/a.pdf'', ''out/a (1).pdf'']
        (ensure_unique_path [''out/a.pdf'', ''out/a (1).pdf''] ''out/a.pdf'')
   \<and> target_name ''out'' ''http://site/x/a.pdf'' = target_name ''out'' ''http://site/y/a.pdf''
   \<and> fst (download_pdf two_pdf_world ''http://site/x/a.pdf'' ''out'' empty_state) = Some ''out/a.pdf''
   \<and> fst (download_pdf two_pdf_world ''http://site/y/a.pdf'' ''out''
        (snd (download_pdf two_pdf_world ''http://site/x/a.pdf'' ''out'' empty_state)))
      = Some ''out/a (1).pdf''"
proof -
  note t = ensure_unique_path_smallest_free [of "[''out/a.pdf'', ''out/a (1).pdf'']" "''out/a.pdf''"
      two_pdf_world "''http://site/x/a.pdf''" "''out''" empty_state
      "''http://site/x/a.pdf''" "''http://site/y/a.pdf''"]
  have ex: "path_exists [''out/a.pdf'', ''out/a (1).pdf''] ''out/a.pdf''"
    by (simp add: path_exists_def)
  have val: "ensure_unique_path [''out/a.pdf'', ''out/a (1).pdf''] ''out/a.pdf'' = ''out/a (2).pdf''"
    by code_simp
  have free: "\<not> path_exists [''out/a.pdf'', ''out/a (1).pdf'']
        (ensure_unique_path [''out/a.pdf'', ''out/a (1).pdf''] ''out/a.pdf'')"
    using t by blast
  have tn: "target_name ''out'' ''http://site/x/a.pdf'' = ''out/a.pdf''"
    "target_name ''out'' ''http://site/y/a.pdf'' = ''out/a.pdf''"
    by code_simp+
  have c1: "candidate (fst (splitext ''out/a.pdf'')) (snd (splitext ''out/a.pdf'')) 1 = ''out/a (1).pdf''"
    by code_simp
  have hyp: "target_name ''out'' ''http://site/x/a.pdf'' = target_name ''out'' ''http://site/y/a.pdf''
        \<and> \<not> path_exists (files empty_state) (target_name ''out'' ''http://site/x/a.pdf'')
        \<and> \<not> path_exists (files empty_state)
            (candidate (fst (splitext (target_name ''out'' ''http://site/x/a.pdf'')))
               (snd (splitext (target_name ''out'' ''http://site/x/a.pdf''))) 1)
        \<and> get_stream two_pdf_world (trace empty_state) ''http://site/x/a.pdf'' = StreamCompletes
        \<and> get_stream two_pdf_world
            (trace (snd (download_pdf two_pdf_world ''http://site/x/a.pdf'' ''out'' empty_state)))
            ''http://site/y/a.pdf'' = StreamCompletes"
    by (simp add: tn path_exists_def empty_state_def two_pdf_world_def)
  from t hyp have "fst (download_pdf two_pdf_world ''http://site/x/a.pdf'' ''out'' empty_state)
        = Some (target_name ''out'' ''http://site/x/a.pdf'')
      \<and> fst (download_pdf two_pdf_world ''http://site/y/a.pdf'' ''out''
          (snd (download_pdf two_pdf_world ''http://site/x/a.pdf'' ''out'' empty_state)))
        = Some (candidate (fst (splitext (target_name ''out'' ''http://site/x/a.pdf'')))
               (snd (splitext (target_name ''out'' ''http://site/x/a.pdf''))) 1)"
    by blast
  then show ?thesis using ex val free tn c1 by simp
qed

section \<open>Invariants of the crawl\<close>

lemma crawl_loop_queued [simp]: "queued (crawl_loop w cfg rp d st) = []"
  by (induction w cfg rp d st rule: crawl_loop.induct) (subst crawl_loop.simps, simp)

lemma crawl_loop_reachable:
  "rp = load_robots w (start_url cfg) \<Longrightarrow> d = enforced_delay cfg rp \<Longrightarrow>
   reachable w cfg fs st \<Longrightarrow> reachable w cfg fs (crawl_loop w cfg rp d st)"
proof (induction w cfg rp d st rule: crawl_loop.induct)
  case (1 w cfg rp d st)
  show ?case
  proof (cases "queued st = []")
    case True
    with 1 show ?thesis by (subst crawl_loop.simps) simp
  next
    case False
    with 1 have "reachable w cfg fs (crawl_step w cfg rp d st)"
      by (auto intro: reachable_step)
    with False 1 show ?thesis by (subst crawl_loop.simps) simp
  qed
qed

lemma crawl_and_download_reachable: "reachable w cfg fs (crawl_and_download w cfg fs)"
  by (simp add: crawl_and_download_def Let_def crawl_loop_reachable reachable_init)

subsection \<open>Downloads\<close>

definition downloads_once :: "crawl_state \<Rightarrow> bool" where
  "downloads_once st =
     (\<forall>u. count_list (trace st) (Download u) = (if u \<in> found_pdfs st then 1 else 0))"

lemma downloads_once_process_link:
  "downloads_once st \<Longrightarrow> downloads_once (process_link w cfg rp d depth st link)"
  unfolding downloads_once_def
  by (auto simp: process_link_count_download process_link_found downloads_link_def)

lemma downloads_once_process_links:
  "downloads_once st \<Longrightarrow> downloads_once (process_links w cfg rp d depth st links)"
  by (induction links arbitrary: st) (simp_all add: downloads_once_process_link)

lemma downloads_once_crawl_step:
  assumes "downloads_once st" "queued st \<noteq> []"
  shows "downloads_once (crawl_step w cfg rp d st)"
proof -
  obtain url depth rest where q: "queued st = (url, depth) # rest"
    using assms(2) by (cases "queued st") auto
  have a: "downloads_once (emit (Popleft url depth) (st\<lparr>queued := rest\<rparr>))"
    using assms(1) by (simp add: downloads_once_def)
  then have b: "downloads_once
      ((emit (Popleft url depth) (st\<lparr>queued := rest\<rparr>))\<lparr>seen_pages := insert url (seen_pages st)\<rparr>)"
    by (simp add: downloads_once_def)
  then have c: "downloads_once (emit (GetPage url)
      ((emit (Popleft url depth) (st\<lparr>queued := rest\<rparr>))\<lparr>seen_pages := insert url (seen_pages st)\<rparr>))"
    by (simp add: downloads_once_def)
  then have "downloads_once (emit (Sleep d) (emit (GetPage url)
      ((emit (Popleft url depth) (st\<lparr>queued := rest\<rparr>))\<lparr>seen_pages := insert url (seen_pages st)\<rparr>)))"
    by (simp add: downloads_once_def)
  with a b c show ?thesis
    by (simp add: crawl_step_unfold [OF q] Let_def downloads_once_process_links
        split: option.splits)
qed

lemma reachable_downloads_once: "reachable w cfg fs st \<Longrightarrow> downloads_once st"
proof (induction rule: reachable.induct)
  case reachable_init
  show ?case by (simp add: downloads_once_def initial_state_def)
next
  case (reachable_step st)
  then show ?case by (simp add: downloads_once_crawl_step)
qed

text \<open>Every document found was allowed by the exclusion policy.\<close>

definition found_allowed :: "robot_file_parser \<Rightarrow> crawl_state \<Rightarrow> bool" where
  "found_allowed rp st = (\<forall>u \<in> found_pdfs st. allowed_by_robots rp u)"

lemma found_allowed_process_links:
  "found_allowed rp st \<Longrightarrow> found_allowed rp (process_links w cfg rp d depth st links)"
proof (induction links arbitrary: st)
  case Nil
  then show ?case by simp
next
  case (Cons link links)
  from Cons.prems have "found_allowed rp (process_link w cfg rp d depth st link)"
    by (auto simp: found_allowed_def process_link_found downloads_link_def)
  with Cons.IH show ?case by simp
qed

lemma found_allowed_crawl_step:
  assumes "found_allowed rp st" "queued st \<noteq> []"
  shows "found_allowed rp (crawl_step w cfg rp d st)"
proof -
  obtain url depth rest where q: "queued st = (url, depth) # rest"
    using assms(2) by (cases "queued st") auto
  have "found_allowed rp (emit (Sleep d) (emit (GetPage url)
      ((emit (Popleft url depth) (st\<lparr>queued := rest\<rparr>))\<lparr>seen_pages := insert url (seen_pages st)\<rparr>)))"
    using assms(1) by (simp add: found_allowed_def)
  with assms(1) show ?thesis
    by (simp add: crawl_step_unfold [OF q] Let_def found_allowed_process_links
        split: option.splits) (simp add: found_allowed_def)
qed

lemma reachable_found_allowed:
  "reachable w cfg fs st \<Longrightarrow> found_allowed (load_robots w (start_url cfg)) st"
proof (induction rule: reachable.induct)
  case reachable_init
  show ?case by (simp add: found_allowed_def initial_state_def)
next
  case (reachable_step st)
  then show ?case by (simp add: found_allowed_crawl_step)
qed

subsection \<open>Pages\<close>

text \<open>A page is requested at most once, and only when it is in scope and allowed;
  by then it is in the visited set.\<close>

definition pages_once :: "config \<Rightarrow> robot_file_parser \<Rightarrow> crawl_state \<Rightarrow> bool" where
  "pages_once cfg rp st =
     (\<forall>u. count_list (trace st) (GetPage u)
        \<le> (if u \<in> seen_pages st \<and> in_scope cfg u \<and> allowed_by_robots rp u then 1 else 0))"

lemma pages_once_process_links:
  "pages_once cfg rp st \<Longrightarrow> pages_once cfg rp (process_links w cfg rp d depth st links)"
  by (simp add: pages_once_def process_links_count_other)

lemma pages_once_emit:
  "pages_once cfg rp st \<Longrightarrow> (\<And>x. e \<noteq> GetPage x) \<Longrightarrow> pages_once cfg rp (emit e st)"
  by (simp add: pages_once_def)

lemma pages_once_crawl_step:
  assumes "pages_once cfg rp st" "queued st \<noteq> []"
  shows "pages_once cfg rp (crawl_step w cfg rp d st)"
proof -
  obtain url depth rest where q: "queued st = (url, depth) # rest"
    using assms(2) by (cases "queued st") auto
  let ?st1 = "emit (Popleft url depth) (st\<lparr>queued := rest\<rparr>)"
  let ?st2 = "?st1\<lparr>seen_pages := insert url (seen_pages st)\<rparr>"
  have a: "pages_once cfg rp ?st1"
    using assms(1) by (simp add: pages_once_def)
  have b: "pages_once cfg rp ?st2"
    unfolding pages_once_def
  proof
    fix u
    have "count_list (trace st) (GetPage u)
        \<le> (if u \<in> seen_pages st \<and> in_scope cfg u \<and> allowed_by_robots rp u then 1 else 0)"
      using assms(1) by (simp add: pages_once_def)
    then show "count_list (trace ?st2) (GetPage u)
        \<le> (if u \<in> seen_pages ?st2 \<and> in_scope cfg u \<and> allowed_by_robots rp u then 1 else 0)"
      by (auto split: if_splits)
  qed
  have c: "pages_once cfg rp (emit (GetPage url) ?st2)" if v: "visits cfg rp st url"
    unfolding pages_once_def
  proof
    fix u
    have le: "count_list (trace st) (GetPage u)
        \<le> (if u \<in> seen_pages st \<and> in_scope cfg u \<and> allowed_by_robots rp u then 1 else 0)"
      using assms(1) by (simp add: pages_once_def)
    show "count_list (trace (emit (GetPage url) ?st2)) (GetPage u)
        \<le> (if u \<in> seen_pages (emit (GetPage url) ?st2) \<and> in_scope cfg u
              \<and> allowed_by_robots rp u then 1 else 0)"
    proof (cases "u = url")
      case True
      with v le have "count_list (trace st) (GetPage u) = 0" by (simp add: visits_def)
      with True v show ?thesis by (simp add: visits_def)
    next
      case False
      with le show ?thesis by (auto split: if_splits)
    qed
  qed
  have d: "pages_once cfg rp (emit (Sleep d) (emit (GetPage url) ?st2))" if "visits cfg rp st url"
    using c [OF that] by (rule pages_once_emit) simp
  show ?thesis
    using a b c d
    by (simp add: crawl_step_unfold [OF q] Let_def pages_once_process_links split: option.splits)
qed

lemma reachable_pages_once:
  "reachable w cfg fs st \<Longrightarrow> pages_once cfg (load_robots w (start_url cfg)) st"
proof (induction rule: reachable.induct)
  case reachable_init
  show ?case by (simp add: pages_once_def initial_state_def)
next
  case (reachable_step st)
  then show ?case by (simp add: pages_once_crawl_step)
qed

subsection \<open>The frontier\<close>

definition frontier_ok :: "config \<Rightarrow> crawl_state \<Rightarrow> bool" where
  "frontier_ok cfg st =
     (\<forall>e \<in> set (queued st).
        e = (start_url cfg, 0) \<or> (1 \<le> snd e \<and> snd e \<le> max_depth cfg \<and> in_scope cfg (fst e)))"

lemma frontier_ok_crawl_step:
  assumes "frontier_ok cfg st" "queued st \<noteq> []"
  shows "frontier_ok cfg (crawl_step w cfg rp d st)"
proof -
  obtain url depth rest where q: "queued st = (url, depth) # rest"
    using assms(2) by (cases "queued st") auto
  obtain new where new: "queued (crawl_step w cfg rp d st) = rest @ new"
    "\<forall>e \<in> set new. snd e = depth + 1 \<and> depth < max_depth cfg \<and> in_scope cfg (fst e)"
    using crawl_step_queued [OF q] by blast
  from assms(1) q have "0 \<le> depth" by (auto simp: frontier_ok_def)
  with new(2) have "\<forall>e \<in> set new. 1 \<le> snd e \<and> snd e \<le> max_depth cfg \<and> in_scope cfg (fst e)"
    by auto
  moreover from assms(1) q have "\<forall>e \<in> set rest.
      e = (start_url cfg, 0) \<or> (1 \<le> snd e \<and> snd e \<le> max_depth cfg \<and> in_scope cfg (fst e))"
    by (simp add: frontier_ok_def)
  ultimately show ?thesis
    unfolding frontier_ok_def new(1) by auto
qed

lemma reachable_frontier_ok: "reachable w cfg fs st \<Longrightarrow> frontier_ok cfg st"
proof (induction rule: reachable.induct)
  case reachable_init
  show ?case by (simp add: frontier_ok_def initial_state_def)
next
  case (reachable_step st)
  then show ?case by (simp add: frontier_ok_crawl_step)
qed

subsection \<open>The links of one page\<close>

lemma process_link_found_mono:
  "found_pdfs st \<subseteq> found_pdfs (process_link w cfg rp d depth st link)"
  by (auto simp: process_link_found)

lemma process_links_found_mono:
  "found_pdfs st \<subseteq> found_pdfs (process_links w cfg rp d depth st links)"
proof (induction links arbitrary: st)
  case Nil
  show ?case by simp
next
  case (Cons link links)
  have "found_pdfs st \<subseteq> found_pdfs (process_link w cfg rp d depth st link)"
    by (rule process_link_found_mono)
  also have "\<dots> \<subseteq> found_pdfs (process_links w cfg rp d depth
      (process_link w cfg rp d depth st link) links)"
    by (rule Cons.IH)
  finally show ?case by simp
qed

text \<open>A link whose path ends in \<open>.pdf\<close> and that the policy allows is among the
  documents found once the link is processed, at any depth.\<close>

lemma process_link_finds_pdf:
  assumes "looks_like_pdf link" "allowed_by_robots rp link"
  shows "link \<in> found_pdfs (process_link w cfg rp d depth st link)"
  using assms by (auto simp: process_link_found downloads_link_def classify_def)

lemma process_links_finds_pdf:
  assumes "l \<in> set links" "looks_like_pdf l" "allowed_by_robots rp l"
  shows "l \<in> found_pdfs (process_links w cfg rp d depth st links)"
  using assms(1)
proof (induction links arbitrary: st)
  case Nil
  then show ?case by simp
next
  case (Cons link links)
  show ?case
  proof (cases "l = link")
    case True
    then have "l \<in> found_pdfs (process_link w cfg rp d depth st link)"
      using assms(2,3) by (simp add: process_link_finds_pdf)
    then show ?thesis
      using process_links_found_mono [of "process_link w cfg rp d depth st link" w cfg rp d depth links]
      by auto
  next
    case False
    with Cons.prems have "l \<in> set links" by simp
    then show ?thesis using Cons.IH by simp
  qed
qed

text \<open>The documents found while the links of a page are processed are links of
  that page.\<close>

lemma process_links_found_from_links:
  "found_pdfs (process_links w cfg rp d depth st links) \<subseteq> found_pdfs st \<union> set links"
proof (induction links arbitrary: st)
  case Nil
  show ?case by simp
next
  case (Cons link links)
  have "found_pdfs (process_links w cfg rp d depth (process_link w cfg rp d depth st link) links)
      \<subseteq> found_pdfs (process_link w cfg rp d depth st link) \<union> set links"
    by (rule Cons.IH)
  moreover have "found_pdfs (process_link w cfg rp d depth st link) \<subseteq> insert link (found_pdfs st)"
    by (auto simp: process_link_found)
  ultimately show ?case by auto
qed

lemma process_links_member_other:
  assumes "\<And>x. e \<noteq> HeadProbe x" "\<And>x. e \<noteq> Download x" "\<And>x. e \<noteq> Sleep x"
  shows "e \<in> set (trace (process_links w cfg rp d depth st links)) \<longleftrightarrow> e \<in> set (trace st)"
proof -
  have "count_list (trace (process_links w cfg rp d depth st links)) e = count_list (trace st) e"
    using assms by (rule process_links_count_other)
  then show ?thesis by (metis count_list_0_iff)
qed

lemma in_scope_start: "in_scope cfg (start_url cfg)"
  by (simp add: in_scope_def is_same_site_def is_under_base_path_def startswith_iff)

lemma downloads_once_member:
  "downloads_once st \<Longrightarrow> Download u \<in> set (trace st) \<longleftrightarrow> u \<in> found_pdfs st"
  by (metis count_list_0_iff downloads_once_def zero_neq_one)

subsection \<open>Maximum depth 0\<close>

lemma crawl_depth0_one_step:
  assumes "max_depth cfg \<le> 0"
  shows "crawl_loop w cfg rp d (initial_state cfg fs) = crawl_step w cfg rp d (initial_state cfg fs)"
proof -
  have q: "queued (initial_state cfg fs) = (start_url cfg, 0) # []"
    by (simp add: initial_state_def)
  obtain new where new: "queued (crawl_step w cfg rp d (initial_state cfg fs)) = [] @ new"
    "\<forall>e \<in> set new. snd e = 0 + 1 \<and> 0 < max_depth cfg \<and> in_scope cfg (fst e)"
    using crawl_step_queued [OF q] by blast
  from new(2) assms have "new = []" by (cases new) auto
  with new(1) have "queued (crawl_step w cfg rp d (initial_state cfg fs)) = []" by simp
  then have "crawl_loop w cfg rp d (crawl_step w cfg rp d (initial_state cfg fs))
      = crawl_step w cfg rp d (initial_state cfg fs)"
    by (subst crawl_loop.simps) simp
  then show ?thesis
    by (subst crawl_loop.simps) (simp add: q)
qed

text \<open>The only pass of the loop at maximum depth 0, spelled out.\<close>

lemma crawl_depth0_cases:
  assumes "max_depth cfg \<le> 0"
  shows "crawl_and_download w cfg fs =
     (let rp = load_robots w (start_url cfg); d = enforced_delay cfg rp;
          st2 = (emit (Popleft (start_url cfg) 0) ((initial_state cfg fs)\<lparr>queued := []\<rparr>))
                  \<lparr>seen_pages := {start_url cfg}\<rparr>
      in if \<not> allowed_by_robots rp (start_url cfg) then st2
         else (case page_links w [Popleft (start_url cfg) 0] (start_url cfg) of
                 None \<Rightarrow> emit (GetPage (start_url cfg)) st2
               | Some ls \<Rightarrow> process_links w cfg rp d 0
                   (emit (Sleep d) (emit (GetPage (start_url cfg)) st2)) (remdups ls)))"
proof -
  have q: "queued (initial_state cfg fs) = (start_url cfg, 0) # []"
    by (simp add: initial_state_def)
  have seen: "seen_pages (initial_state cfg fs) = {}" and tr: "trace (initial_state cfg fs) = []"
    by (simp_all add: initial_state_def)
  show ?thesis
    unfolding crawl_and_download_def Let_def crawl_depth0_one_step [OF assms(1)]
      crawl_step_unfold [OF q]
    by (simp add: visits_def in_scope_start seen tr fetch_links_def split: option.splits)
qed

lemma in_page_frontier_ok: "in_page w cfg fs st \<Longrightarrow> frontier_ok cfg st"
proof (induction rule: in_page.induct)
  case (in_page_links st url depth rest links n)
  let ?st3 = "emit (Sleep (enforced_delay cfg (load_robots w (start_url cfg))))
      (emit (GetPage url)
        ((emit (Popleft url depth) (st\<lparr>queued := rest\<rparr>))\<lparr>seen_pages := insert url (seen_pages st)\<rparr>))"
  have ok: "frontier_ok cfg st"
    using in_page_links(1) by (rule reachable_frontier_ok)
  obtain new where new: "queued (process_links w cfg (load_robots w (start_url cfg))
        (enforced_delay cfg (load_robots w (start_url cfg))) depth ?st3 (take n links))
      = queued ?st3 @ new"
    "\<forall>e \<in> set new. snd e = depth + 1 \<and> depth < max_depth cfg \<and> in_scope cfg (fst e)
        \<and> fst e \<in> set (take n links)"
    using process_links_queued by blast
  have q3: "queued ?st3 = rest" by simp
  from ok in_page_links(2) have "0 \<le> depth" by (auto simp: frontier_ok_def)
  with new(2) have "\<forall>e \<in> set new. 1 \<le> snd e \<and> snd e \<le> max_depth cfg \<and> in_scope cfg (fst e)"
    by auto
  moreover from ok in_page_links(2) have "\<forall>e \<in> set rest.
      e = (start_url cfg, 0) \<or> (1 \<le> snd e \<and> snd e \<le> max_depth cfg \<and> in_scope cfg (fst e))"
    by (simp add: frontier_ok_def)
  ultimately show ?case
    unfolding frontier_ok_def new(1) q3 by auto
qed

section \<open>The example networks, run\<close>

lemma e2e_final:
  "crawl_and_download e2e_world e2e_config [] =
     \<lparr> seen_pages = {''http://site/ref/page2'', ''http://site/ref/''},
       queued = [],
       found_pdfs = {''http://site/ref/b.pdf'', ''http://site/ref/a.pdf''},
       downloaded = 2, checked_links = 4,
       files = [''out/b.pdf'', ''out'', ''out/a.pdf'', ''out''],
       trace =
         [Popleft ''http://site/ref/'' 0, GetPage ''http://site/ref/'',
          Sleep (1 / 2), Download ''http://site/ref/a.pdf'', Sleep (1 / 2),
          HeadProbe ''http://site/ref/page2'', HeadProbe ''http://other/x'',
          Popleft ''http://site/ref/page2'' 1,
          GetPage ''http://site/ref/page2'', Sleep (1 / 2),
          Download ''http://site/ref/b.pdf'', Sleep (1 / 2)] \<rparr>"
  by code_simp

lemma offsite_pdf_trace:
  "trace (crawl_and_download offsite_pdf_world e2e_config []) =
     [Popleft ''http://site/ref/'' 0, GetPage ''http://site/ref/'',
      Sleep (1 / 2), Download ''http://other/doc.pdf'', Sleep (1 / 2)]"
  by code_simp

lemma private_final:
  "crawl_and_download private_world e2e_config [] =
     \<lparr> seen_pages = {''http://site/ref/private'', ''http://site/ref/''},
       queued = [], found_pdfs = {}, downloaded = 0, checked_links = 1,
       files = [],
       trace =
         [Popleft ''http://site/ref/'' 0, GetPage ''http://site/ref/'',
          Sleep (1 / 2), HeadProbe ''http://site/ref/private'',
          Popleft ''http://site/ref/private'' 1] \<rparr>"
  by code_simp

lemma cycle_trace:
  "trace (crawl_and_download cycle_world cycle_config []) =
     [Popleft ''http://site/a'' 0, GetPage ''http://site/a'', Sleep (1 / 2),
      HeadProbe ''http://site/b'', Popleft ''http://site/b'' 1,
      GetPage ''http://site/b'', Sleep (1 / 2), HeadProbe ''http://site/a'']"
  by code_simp

lemma diamond_trace:
  "trace (crawl_and_download diamond_world diamond_config []) =
     [Popleft ''http://site/'' 0, GetPage ''http://site/'', Sleep (1 / 2),
      HeadProbe ''http://site/a'', HeadProbe ''http://site/b'',
      Popleft ''http://site/a'' 1, GetPage ''http://site/a'', Sleep (1 / 2),
      HeadProbe ''http://site/c'', Popleft ''http://site/b'' 1,
      GetPage ''http://site/b'', Sleep (1 / 2), HeadProbe ''http://site/c'',
      Popleft ''http://site/c'' 2, GetPage ''http://site/c'', Sleep (1 / 2),
      Popleft ''http://site/c'' 2]"
  by code_simp

lemma robots_down_final:
  "crawl_and_download robots_down_world e2e_config [] =
     \<lparr> seen_pages = {''http://site/ref/''}, queued = [], found_pdfs = {},
       downloaded = 0, checked_links = 0, files = [],
       trace = [Popleft ''http://site/ref/'' 0] \<rparr>"
  by code_simp

lemma e2e_depth0_trace:
  "trace (crawl_and_download e2e_world (e2e_config\<lparr>max_depth := 0\<rparr>) []) =
     [Popleft ''http://site/ref/'' 0, GetPage ''http://site/ref/'',
      Sleep (1 / 2), Download ''http://site/ref/a.pdf'', Sleep (1 / 2),
      HeadProbe ''http://site/ref/page2'', HeadProbe ''http://other/x'']"
  by code_simp

lemma e2e_first_step_queued:
  "queued (crawl_step e2e_world e2e_config (load_robots e2e_world (start_url e2e_config))
      (enforced_delay e2e_config (load_robots e2e_world (start_url e2e_config)))
      (initial_state e2e_config [])) = [(''http://site/ref/page2'', 1)]"
  by code_simp

section \<open>Properties of the crawl\<close>

lemma pages_once_member:
  assumes "pages_once cfg rp st" "GetPage u \<in> set (trace st)"
  shows "u \<in> seen_pages st \<and> in_scope cfg u \<and> allowed_by_robots rp u"
proof (rule ccontr)
  assume "\<not> (u \<in> seen_pages st \<and> in_scope cfg u \<and> allowed_by_robots rp u)"
  with assms(1) have "count_list (trace st) (GetPage u) = 0"
    unfolding pages_once_def by (metis le_zero_eq)
  with assms(2) show False by (simp add: count_list_0_iff)
qed

lemma page_fetched_checked:
  assumes "GetPage u \<in> set (trace (crawl_and_download w cfg fs))"
  shows "in_scope cfg u \<and> allowed_by_robots (load_robots w (start_url cfg)) u"
  using pages_once_member [OF reachable_pages_once [OF crawl_and_download_reachable] assms]
  by simp

lemma download_allowed:
  assumes "Download u \<in> set (trace (crawl_and_download w cfg fs))"
  shows "u \<in> found_pdfs (crawl_and_download w cfg fs)
    \<and> allowed_by_robots (load_robots w (start_url cfg)) u"
proof -
  have "u \<in> found_pdfs (crawl_and_download w cfg fs)"
    using assms downloads_once_member [OF reachable_downloads_once [OF crawl_and_download_reachable]]
    by blast
  moreover have "found_allowed (load_robots w (start_url cfg)) (crawl_and_download w cfg fs)"
    by (rule reachable_found_allowed [OF crawl_and_download_reachable])
  ultimately show ?thesis by (auto simp: found_allowed_def)
qed

text \<open>
  Claim C1, as amended. A link is requested as a page only after it has passed the
  scope check (same host, and under the base path when same-path-only is set) and the
  exclusion-policy check; a link is downloaded as a document only after it has passed
  the exclusion-policy check. In the end-to-end scenario with depth 2 and
  same-path-only, the link on the external host is neither visited as a page nor
  downloaded, and the summary reports 2 pages visited, 2 documents found and 2
  downloaded.
\<close>

theorem page_requests_in_scope_and_allowed:
  "(GetPage u \<in> set (trace (crawl_and_download w cfg fs)) \<longrightarrow>
      is_same_site u (start_url cfg)
      \<and> (same_path_only cfg \<longrightarrow> is_under_base_path u (start_url cfg))
      \<and> allowed_by_robots (load_robots w (start_url cfg)) u)
   \<and> (Download u \<in> set (trace (crawl_and_download w cfg fs)) \<longrightarrow>
        allowed_by_robots (load_robots w (start_url cfg)) u)
   \<and> GetPage ''http://other/x'' \<notin> set (trace (crawl_and_download e2e_world e2e_config []))
   \<and> Download ''http://other/x'' \<notin> set (trace (crawl_and_download e2e_world e2e_config []))
   \<and> summary (crawl_and_download e2e_world e2e_config []) = (2, 4, 2, 2)"
proof (intro conjI impI)
  assume g: "GetPage u \<in> set (trace (crawl_and_download w cfg fs))"
  from page_fetched_checked [OF g] show "is_same_site u (start_url cfg)"
    by (simp add: in_scope_def)
  from page_fetched_checked [OF g] show "is_under_base_path u (start_url cfg)"
    if "same_path_only cfg" using that by (simp add: in_scope_def)
  from page_fetched_checked [OF g] show "allowed_by_robots (load_robots w (start_url cfg)) u"
    by simp
next
  assume "Download u \<in> set (trace (crawl_and_download w cfg fs))"
  then show "allowed_by_robots (load_robots w (start_url cfg)) u"
    using download_allowed by blast
next
  show "GetPage ''http://other/x'' \<notin> set (trace (crawl_and_download e2e_world e2e_config []))"
    by (simp add: e2e_final)
  show "Download ''http://other/x'' \<notin> set (trace (crawl_and_download e2e_world e2e_config []))"
    by (simp add: e2e_final)
  show "summary (crawl_and_download e2e_world e2e_config []) = (2, 4, 2, 2)"
    by (simp add: e2e_final summary_def)
qed

theorem page_requests_in_scope_and_allowed_witness:
  "GetPage ''http://site/ref/page2'' \<in> set (trace (crawl_and_download e2e_world e2e_config []))
   \<and> is_same_site ''http://site/ref/page2'' (start_url e2e_config)
   \<and> same_path_only e2e_config
   \<and> is_under_base_path ''http://site/ref/page2'' (start_url e2e_config)
   \<and> allowed_by_robots (load_robots e2e_world (start_url e2e_config)) ''http://site/ref/page2''
   \<and> Download ''http://site/ref/b.pdf'' \<in> set (trace (crawl_and_download e2e_world e2e_config []))
   \<and> allowed_by_robots (load_robots e2e_world (start_url e2e_config)) ''http://site/ref/b.pdf''"
proof -
  have g: "GetPage ''http://site/ref/page2'' \<in> set (trace (crawl_and_download e2e_world e2e_config []))"
    by (simp add: e2e_final)
  have d: "Download ''http://site/ref/b.pdf'' \<in> set (trace (crawl_and_download e2e_world e2e_config []))"
    by (simp add: e2e_final)
  have s: "same_path_only e2e_config" by (simp add: e2e_config_def)
  from g s page_requests_in_scope_and_allowed [of "''http://site/ref/page2''" e2e_world e2e_config "[]"]
  have "is_same_site ''http://site/ref/page2'' (start_url e2e_config)
      \<and> is_under_base_path ''http://site/ref/page2'' (start_url e2e_config)
      \<and> allowed_by_robots (load_robots e2e_world (start_url e2e_config)) ''http://site/ref/page2''"
    by blast
  moreover from d page_requests_in_scope_and_allowed [of "''http://site/ref/b.pdf''" e2e_world e2e_config "[]"]
  have "allowed_by_robots (load_robots e2e_world (start_url e2e_config)) ''http://site/ref/b.pdf''"
    by blast
  ultimately show ?thesis using g d s by blast
qed

text \<open>
  Claim C1 as stated fails. In the end-to-end scenario the link on the external host
  is probed with a HEAD request, before any scope or policy check; and a document on
  another host is downloaded: document candidates are not scope-checked.
\<close>

theorem external_link_probed_and_downloaded:
  "HeadProbe ''http://other/x'' \<in> set (trace (crawl_and_download e2e_world e2e_config []))
   \<and> \<not> is_same_site ''http://other/x'' (start_url e2e_config)
   \<and> Download ''http://other/doc.pdf'' \<in> set (trace (crawl_and_download offsite_pdf_world e2e_config []))
   \<and> \<not> is_same_site ''http://other/doc.pdf'' (start_url e2e_config)"
proof -
  have "\<not> is_same_site ''http://other/x'' (start_url e2e_config)" by code_simp
  moreover have "\<not> is_same_site ''http://other/doc.pdf'' (start_url e2e_config)" by code_simp
  ultimately show ?thesis by (simp add: e2e_final offsite_pdf_trace)
qed

text \<open>
  Claim C3, as amended. A URL that the exclusion policy disallows is never requested
  as a page and never downloaded, and it is not among the documents found, so it is
  not counted in the documents-found count of the summary.
\<close>

theorem disallowed_never_requested_nor_found:
  "\<not> allowed_by_robots (load_robots w (start_url cfg)) u \<longrightarrow>
     GetPage u \<notin> set (trace (crawl_and_download w cfg fs))
     \<and> Download u \<notin> set (trace (crawl_and_download w cfg fs))
     \<and> u \<notin> found_pdfs (crawl_and_download w cfg fs)"
proof (intro impI conjI)
  assume n: "\<not> allowed_by_robots (load_robots w (start_url cfg)) u"
  show "GetPage u \<notin> set (trace (crawl_and_download w cfg fs))"
    using n page_fetched_checked by blast
  show "Download u \<notin> set (trace (crawl_and_download w cfg fs))"
    using n download_allowed by blast
  have "found_allowed (load_robots w (start_url cfg)) (crawl_and_download w cfg fs)"
    by (rule reachable_found_allowed [OF crawl_and_download_reachable])
  with n show "u \<notin> found_pdfs (crawl_and_download w cfg fs)"
    by (auto simp: found_allowed_def)
qed

theorem disallowed_never_requested_nor_found_witness:
  "\<not> allowed_by_robots (load_robots private_world (start_url e2e_config)) ''http://site/ref/private''
   \<and> GetPage ''http://site/ref/private'' \<notin> set (trace (crawl_and_download private_world e2e_config []))
   \<and> Download ''http://site/ref/private'' \<notin> set (trace (crawl_and_download private_world e2e_config []))
   \<and> ''http://site/ref/private'' \<notin> found_pdfs (crawl_and_download private_world e2e_config [])"
proof -
  have n: "\<not> allowed_by_robots (load_robots private_world (start_url e2e_config)) ''http://site/ref/private''"
    by code_simp
  with disallowed_never_requested_nor_found [of private_world e2e_config "''http://site/ref/private''" "[]"]
  show ?thesis by blast
qed

text \<open>
  Claim C3 as stated fails. A disallowed URL that was enqueued is put into the visited
  set when it is dequeued, before the policy is asked, and the summary counts the
  visited set as pages visited; it is also probed with a HEAD request when it is found
  as a link.
\<close>

theorem disallowed_counted_as_visited:
  "\<not> allowed_by_robots (load_robots private_world (start_url e2e_config)) ''http://site/ref/private''
   \<and> ''http://site/ref/private'' \<in> seen_pages (crawl_and_download private_world e2e_config [])
   \<and> fst (summary (crawl_and_download private_world e2e_config [])) = 2
   \<and> HeadProbe ''http://site/ref/private''
        \<in> set (trace (crawl_and_download private_world e2e_config []))"
proof -
  have "\<not> allowed_by_robots (load_robots private_world (start_url e2e_config)) ''http://site/ref/private''"
    by code_simp
  then show ?thesis by (simp add: private_final summary_def)
qed

text \<open>
  Claim C4. In every crawl the download of a URL is started at most once, whatever
  pages link to it and at whatever depth: a download is started exactly for the URLs
  in the set of documents found, once each.
\<close>

theorem download_at_most_once:
  "count_list (trace (crawl_and_download w cfg fs)) (Download u) \<le> 1
   \<and> count_list (trace (crawl_and_download w cfg fs)) (Download u)
       = (if u \<in> found_pdfs (crawl_and_download w cfg fs) then 1 else 0)"
proof -
  have "downloads_once (crawl_and_download w cfg fs)"
    by (rule reachable_downloads_once [OF crawl_and_download_reachable])
  then show ?thesis by (simp add: downloads_once_def)
qed

theorem download_at_most_once_witness:
  "count_list (trace (crawl_and_download e2e_world e2e_config [])) (Download ''http://site/ref/a.pdf'') = 1
   \<and> ''http://site/ref/a.pdf'' \<in> found_pdfs (crawl_and_download e2e_world e2e_config [])"
proof -
  have "''http://site/ref/a.pdf'' \<in> found_pdfs (crawl_and_download e2e_world e2e_config [])"
    by (simp add: e2e_final)
  with download_at_most_once [of e2e_world e2e_config "[]" "''http://site/ref/a.pdf''"]
  show ?thesis by simp
qed

text \<open>
  Claim C5, as amended. For every network, configuration and URL, the URL is requested
  as a page at most once, so it is fetched and expanded at most once, and the crawl
  loop ends with an empty frontier. A URL may be fetched not at all: the depth limit
  can keep it out of the frontier, and a page whose request fails is not expanded. In
  the run of the cycle in which page \<open>a\<close> links to \<open>b\<close> and \<open>b\<close> back to \<open>a\<close>, started at
  \<open>a\<close> with maximum depth 2 and every request answered, each of the two pages is
  fetched exactly once.
\<close>

theorem page_fetched_at_most_once:
  "count_list (trace (crawl_and_download w cfg fs)) (GetPage u) \<le> 1
   \<and> queued (crawl_and_download w cfg fs) = []
   \<and> count_list (trace (crawl_and_download cycle_world cycle_config [])) (GetPage ''http://site/a'') = 1
   \<and> count_list (trace (crawl_and_download cycle_world cycle_config [])) (GetPage ''http://site/b'') = 1"
proof (intro conjI)
  have "pages_once cfg (load_robots w (start_url cfg)) (crawl_and_download w cfg fs)"
    by (rule reachable_pages_once [OF crawl_and_download_reachable])
  then have "count_list (trace (crawl_and_download w cfg fs)) (GetPage u)
      \<le> (if u \<in> seen_pages (crawl_and_download w cfg fs) \<and> in_scope cfg u
            \<and> allowed_by_robots (load_robots w (start_url cfg)) u then 1 else 0)"
    by (simp add: pages_once_def)
  then show "count_list (trace (crawl_and_download w cfg fs)) (GetPage u) \<le> 1"
    by (simp split: if_splits)
  show "queued (crawl_and_download w cfg fs) = []"
    by (simp add: crawl_and_download_def Let_def)
  show "count_list (trace (crawl_and_download cycle_world cycle_config [])) (GetPage ''http://site/a'') = 1"
    by (simp add: cycle_trace)
  show "count_list (trace (crawl_and_download cycle_world cycle_config [])) (GetPage ''http://site/b'') = 1"
    by (simp add: cycle_trace)
qed

theorem page_fetched_at_most_once_witness:
  "count_list (trace (crawl_and_download diamond_world diamond_config [])) (GetPage ''http://site/c'') = 1
   \<and> queued (crawl_and_download diamond_world diamond_config []) = []"
proof -
  have "count_list (trace (crawl_and_download diamond_world diamond_config [])) (GetPage ''http://site/c'') = 1"
    by (simp add: diamond_trace)
  with page_fetched_at_most_once [of diamond_world diamond_config "[]" "''http://site/c''"]
  show ?thesis by simp
qed

text \<open>
  Claim C5 as stated fails: a URL can be dequeued twice. In the diamond both \<open>a\<close> and
  \<open>b\<close> enqueue \<open>c\<close> before \<open>c\<close> is visited, and \<open>c\<close> is taken from the frontier twice
  (the second time it is discarded by the visited check).
\<close>

theorem url_dequeued_twice:
  "count_list (trace (crawl_and_download diamond_world diamond_config []))
     (Popleft ''http://site/c'' 2) = 2"
  by (simp add: diamond_trace)

text \<open>
  Claim C6 fails on the code. When the request for the robots file raises,
  \<open>load_robots\<close> returns the parser as it was created, and \<open>can_fetch\<close> of a parser
  that has read nothing answers no for every URL: the policy denies everything. The
  extra delay is 0 and the delay in force is the configured one (when it is not
  negative). The crawl then dequeues the seed and fetches nothing.
\<close>

theorem load_robots_failure_denies_all:
  "\<not> allowed_by_robots (load_robots (w\<lparr>robots_txt := \<lambda>_. RobotsRaises\<rparr>) base) url
   \<and> robots_crawl_delay (load_robots (w\<lparr>robots_txt := \<lambda>_. RobotsRaises\<rparr>) base) = 0
   \<and> enforced_delay cfg (load_robots (w\<lparr>robots_txt := \<lambda>_. RobotsRaises\<rparr>) base) = max (delay cfg) 0
   \<and> trace (crawl_and_download robots_down_world e2e_config []) = [Popleft ''http://site/ref/'' 0]
   \<and> summary (crawl_and_download robots_down_world e2e_config []) = (1, 0, 0, 0)"
  by (simp add: load_robots_def Let_def robots_read_def new_robot_file_parser_def
      allowed_by_robots_def can_fetch_def robots_crawl_delay_def crawl_delay_def
      enforced_delay_def robots_down_final summary_def)

lemma process_link_downloads_at_any_depth:
  assumes "looks_like_pdf l \<or> fst (head_is_pdf w l (st\<lparr>checked_links := checked_links st + 1\<rparr>))"
    and "allowed_by_robots rp l" and "l \<notin> found_pdfs st"
  shows "Download l \<in> set (trace (process_link w cfg rp d depth st l))
    \<and> l \<in> found_pdfs (process_link w cfg rp d depth st l)"
proof -
  have dl: "downloads_link w rp st l"
    using assms by (auto simp: downloads_link_def classify_def)
  obtain sl where "trace (process_link w cfg rp d depth st l) =
      trace st @ (if looks_like_pdf l then [] else [HeadProbe l])
        @ (if downloads_link w rp st l then Download l # sl else [])"
    using process_link_trace by blast
  with dl show ?thesis by (simp add: process_link_found)
qed

lemma crawl_depth0_shape:
  assumes "max_depth cfg \<le> 0"
  shows "(trace (crawl_and_download w cfg fs) = [Popleft (start_url cfg) 0]
            \<and> \<not> allowed_by_robots (load_robots w (start_url cfg)) (start_url cfg))
    \<or> (trace (crawl_and_download w cfg fs) = [Popleft (start_url cfg) 0, GetPage (start_url cfg)]
            \<and> page_links w [Popleft (start_url cfg) 0] (start_url cfg) = None)
    \<or> (\<exists>ls st3. page_links w [Popleft (start_url cfg) 0] (start_url cfg) = Some ls
          \<and> allowed_by_robots (load_robots w (start_url cfg)) (start_url cfg)
          \<and> trace st3 = [Popleft (start_url cfg) 0, GetPage (start_url cfg),
                Sleep (enforced_delay cfg (load_robots w (start_url cfg)))]
          \<and> found_pdfs st3 = {}
          \<and> crawl_and_download w cfg fs =
              process_links w cfg (load_robots w (start_url cfg))
                (enforced_delay cfg (load_robots w (start_url cfg))) 0 st3 (remdups ls))"
proof (cases "allowed_by_robots (load_robots w (start_url cfg)) (start_url cfg)")
  case False
  then show ?thesis
    by (simp add: crawl_depth0_cases [OF assms] Let_def initial_state_def emit_def)
next
  case True
  show ?thesis
  proof (cases "page_links w [Popleft (start_url cfg) 0] (start_url cfg)")
    case None
    with True show ?thesis
      by (simp add: crawl_depth0_cases [OF assms] Let_def initial_state_def emit_def)
  next
    case (Some ls)
    let ?st3 = "emit (Sleep (enforced_delay cfg (load_robots w (start_url cfg))))
      (emit (GetPage (start_url cfg))
        ((emit (Popleft (start_url cfg) 0) ((initial_state cfg fs)\<lparr>queued := []\<rparr>))
           \<lparr>seen_pages := {start_url cfg}\<rparr>))"
    have "trace ?st3 = [Popleft (start_url cfg) 0, GetPage (start_url cfg),
        Sleep (enforced_delay cfg (load_robots w (start_url cfg)))]"
      and "found_pdfs ?st3 = {}"
      by (simp_all add: initial_state_def emit_def)
    moreover have "crawl_and_download w cfg fs =
        process_links w cfg (load_robots w (start_url cfg))
          (enforced_delay cfg (load_robots w (start_url cfg))) 0 ?st3 (remdups ls)"
      using True Some by (simp add: crawl_depth0_cases [OF assms] Let_def)
    ultimately show ?thesis using True Some by blast
  qed
qed

lemma crawl_depth0_pages:
  assumes "max_depth cfg \<le> 0"
    and "\<And>x. e \<noteq> HeadProbe x" "\<And>x. e \<noteq> Download x" "\<And>x. e \<noteq> Sleep x"
    and "e \<in> set (trace (crawl_and_download w cfg fs))"
  shows "e = Popleft (start_url cfg) 0 \<or> e = GetPage (start_url cfg)"
proof -
  from crawl_depth0_shape [OF assms(1), of w fs]
  consider
    (denied) "trace (crawl_and_download w cfg fs) = [Popleft (start_url cfg) 0]"
  | (failed) "trace (crawl_and_download w cfg fs) = [Popleft (start_url cfg) 0, GetPage (start_url cfg)]"
  | (fetched) ls st3 where
      "trace st3 = [Popleft (start_url cfg) 0, GetPage (start_url cfg),
          Sleep (enforced_delay cfg (load_robots w (start_url cfg)))]"
      "crawl_and_download w cfg fs =
          process_links w cfg (load_robots w (start_url cfg))
            (enforced_delay cfg (load_robots w (start_url cfg))) 0 st3 (remdups ls)"
    by blast
  then show ?thesis
  proof cases
    case denied
    with assms(5) show ?thesis by simp
  next
    case failed
    with assms(5) show ?thesis by auto
  next
    case fetched
    from assms(5) have "e \<in> set (trace st3)"
      unfolding fetched(2) using process_links_member_other [OF assms(2-4)] by blast
    with fetched(1) assms(4) show ?thesis by auto
  qed
qed

lemma crawl_depth0_documents:
  assumes "max_depth cfg \<le> 0"
  shows "found_pdfs (crawl_and_download w cfg fs) \<subseteq>
      (case page_links w [Popleft (start_url cfg) 0] (start_url cfg) of
         None \<Rightarrow> {} | Some ls \<Rightarrow> set ls)"
proof -
  have once: "downloads_once (crawl_and_download w cfg fs)"
    by (rule reachable_downloads_once [OF crawl_and_download_reachable])
  from crawl_depth0_shape [OF assms, of w fs]
  consider
    (short) "\<forall>u. Download u \<notin> set (trace (crawl_and_download w cfg fs))"
  | (fetched) ls st3 where
      "page_links w [Popleft (start_url cfg) 0] (start_url cfg) = Some ls"
      "found_pdfs st3 = {}"
      "crawl_and_download w cfg fs =
          process_links w cfg (load_robots w (start_url cfg))
            (enforced_delay cfg (load_robots w (start_url cfg))) 0 st3 (remdups ls)"
    by fastforce
  then show ?thesis
  proof cases
    case short
    with downloads_once_member [OF once] have "found_pdfs (crawl_and_download w cfg fs) = {}"
      by blast
    then show ?thesis by simp
  next
    case fetched
    have "found_pdfs (crawl_and_download w cfg fs) \<subseteq> found_pdfs st3 \<union> set (remdups ls)"
      unfolding fetched(3) by (rule process_links_found_from_links)
    with fetched(1,2) show ?thesis by simp
  qed
qed

lemma crawl_depth0_finds:
  assumes "max_depth cfg \<le> 0"
    and "allowed_by_robots (load_robots w (start_url cfg)) (start_url cfg)"
    and "page_links w [Popleft (start_url cfg) 0] (start_url cfg) = Some ls"
    and "l \<in> set ls" "looks_like_pdf l" "allowed_by_robots (load_robots w (start_url cfg)) l"
  shows "l \<in> found_pdfs (crawl_and_download w cfg fs)"
proof -
  from crawl_depth0_shape [OF assms(1), of w fs] assms(2,3)
  obtain st3 where "crawl_and_download w cfg fs =
      process_links w cfg (load_robots w (start_url cfg))
        (enforced_delay cfg (load_robots w (start_url cfg))) 0 st3 (remdups ls)"
    by auto
  moreover from assms(4) have "l \<in> set (remdups ls)" by simp
  ultimately show ?thesis
    using process_links_finds_pdf [OF _ assms(5,6)] by simp
qed

text \<open>
  Claim C7. With maximum depth 0 the only page requested is the seed, the only
  frontier entry ever dequeued or held is the seed at depth 0, and every download is
  of a link of the seed page; a link of the seed page whose path ends in \<open>.pdf\<close> and
  that the policy allows is found and its download started. At any depth, also at or
  beyond the maximum, a link that is classified as a document, allowed and not yet
  found has its download started: no depth check guards documents.
\<close>

theorem depth0_only_seed_page_and_its_documents:
  assumes "max_depth cfg = 0"
  shows "(\<forall>u. GetPage u \<in> set (trace (crawl_and_download w cfg fs)) \<longrightarrow> u = start_url cfg)
   \<and> (\<forall>u k. Popleft u k \<in> set (trace (crawl_and_download w cfg fs)) \<longrightarrow>
          u = start_url cfg \<and> k = 0)
   \<and> (\<forall>st. reachable w cfg fs st \<longrightarrow> set (queued st) \<subseteq> {(start_url cfg, 0)})
   \<and> (\<forall>u. Download u \<in> set (trace (crawl_and_download w cfg fs)) \<longrightarrow>
          (\<exists>ls. page_links w [Popleft (start_url cfg) 0] (start_url cfg) = Some ls \<and> u \<in> set ls))
   \<and> (\<forall>ls l. allowed_by_robots (load_robots w (start_url cfg)) (start_url cfg)
          \<and> page_links w [Popleft (start_url cfg) 0] (start_url cfg) = Some ls
          \<and> l \<in> set ls \<and> looks_like_pdf l
          \<and> allowed_by_robots (load_robots w (start_url cfg)) l \<longrightarrow>
          Download l \<in> set (trace (crawl_and_download w cfg fs))
          \<and> l \<in> found_pdfs (crawl_and_download w cfg fs))
   \<and> (\<forall>rp d depth st l.
          (looks_like_pdf l \<or> fst (head_is_pdf w l (st\<lparr>checked_links := checked_links st + 1\<rparr>)))
          \<and> allowed_by_robots rp l \<and> l \<notin> found_pdfs st \<longrightarrow>
          Download l \<in> set (trace (process_link w cfg rp d depth st l))
          \<and> l \<in> found_pdfs (process_link w cfg rp d depth st l))"
proof (intro conjI allI impI)
  from assms have le: "max_depth cfg \<le> 0" by simp
  have once: "downloads_once (crawl_and_download w cfg fs)"
    by (rule reachable_downloads_once [OF crawl_and_download_reachable])
  {
    fix u assume "GetPage u \<in> set (trace (crawl_and_download w cfg fs))"
    with crawl_depth0_pages [OF le, of "GetPage u" w fs] show "u = start_url cfg" by simp
  }
  {
    fix u k assume p: "Popleft u k \<in> set (trace (crawl_and_download w cfg fs))"
    with crawl_depth0_pages [OF le, of "Popleft u k" w fs] show "u = start_url cfg" by simp
    from p crawl_depth0_pages [OF le, of "Popleft u k" w fs] show "k = 0" by simp
  }
  {
    fix st assume "reachable w cfg fs st"
    then have "frontier_ok cfg st" by (rule reachable_frontier_ok)
    with assms show "set (queued st) \<subseteq> {(start_url cfg, 0)}"
      by (fastforce simp: frontier_ok_def)
  }
  {
    fix u assume "Download u \<in> set (trace (crawl_and_download w cfg fs))"
    with downloads_once_member [OF once] have "u \<in> found_pdfs (crawl_and_download w cfg fs)"
      by blast
    with crawl_depth0_documents [OF le, of w fs]
    show "\<exists>ls. page_links w [Popleft (start_url cfg) 0] (start_url cfg) = Some ls \<and> u \<in> set ls"
      by (cases "page_links w [Popleft (start_url cfg) 0] (start_url cfg)") auto
  }
  {
    fix ls l
    assume h: "allowed_by_robots (load_robots w (start_url cfg)) (start_url cfg)
          \<and> page_links w [Popleft (start_url cfg) 0] (start_url cfg) = Some ls
          \<and> l \<in> set ls \<and> looks_like_pdf l
          \<and> allowed_by_robots (load_robots w (start_url cfg)) l"
    then show f: "l \<in> found_pdfs (crawl_and_download w cfg fs)"
      using crawl_depth0_finds [OF le, of w ls l fs] by blast
    with downloads_once_member [OF once]
    show "Download l \<in> set (trace (crawl_and_download w cfg fs))" by blast
  }
  {
    fix rp d depth st l
    assume h: "(looks_like_pdf l \<or> fst (head_is_pdf w l (st\<lparr>checked_links := checked_links st + 1\<rparr>)))
          \<and> allowed_by_robots rp l \<and> l \<notin> found_pdfs st"
    with process_link_downloads_at_any_depth [of l w st rp cfg d depth]
    show "Download l \<in> set (trace (process_link w cfg rp d depth st l))"
      and "l \<in> found_pdfs (process_link w cfg rp d depth st l)"
      by blast+
  }
qed

theorem depth0_only_seed_page_and_its_documents_witness:
  "max_depth (e2e_config\<lparr>max_depth := 0\<rparr>) = 0
   \<and> GetPage ''http://site/ref/'' \<in> set (trace (crawl_and_download e2e_world (e2e_config\<lparr>max_depth := 0\<rparr>) []))
   \<and> GetPage ''http://site/ref/page2''
        \<notin> set (trace (crawl_and_download e2e_world (e2e_config\<lparr>max_depth := 0\<rparr>) []))
   \<and> Download ''http://site/ref/a.pdf''
        \<in> set (trace (crawl_and_download e2e_world (e2e_config\<lparr>max_depth := 0\<rparr>) []))
   \<and> Download ''http://site/ref/b.pdf''
        \<notin> set (trace (crawl_and_download e2e_world (e2e_config\<lparr>max_depth := 0\<rparr>) []))"
proof -
  have m: "max_depth (e2e_config\<lparr>max_depth := 0\<rparr>) = 0" by simp
  note t = depth0_only_seed_page_and_its_documents [OF m, of e2e_world "[]"]
  have s: "start_url (e2e_config\<lparr>max_depth := 0\<rparr>) = ''http://site/ref/''"
    by (simp add: e2e_config_def)
  have "''http://site/ref/page2'' \<noteq> start_url (e2e_config\<lparr>max_depth := 0\<rparr>)"
    by (simp add: s)
  with t have a: "GetPage ''http://site/ref/page2''
        \<notin> set (trace (crawl_and_download e2e_world (e2e_config\<lparr>max_depth := 0\<rparr>) []))"
    by blast
  have pl: "page_links e2e_world [Popleft (start_url (e2e_config\<lparr>max_depth := 0\<rparr>)) 0]
      (start_url (e2e_config\<lparr>max_depth := 0\<rparr>))
      = Some [''http://site/ref/a.pdf'', ''http://site/ref/page2'', ''http://other/x'']"
    by (simp add: s e2e_world_def)
  have "\<not> (\<exists>ls. page_links e2e_world [Popleft (start_url (e2e_config\<lparr>max_depth := 0\<rparr>)) 0]
      (start_url (e2e_config\<lparr>max_depth := 0\<rparr>)) = Some ls \<and> ''http://site/ref/b.pdf'' \<in> set ls)"
    unfolding pl by simp
  with t have b: "Download ''http://site/ref/b.pdf''
        \<notin> set (trace (crawl_and_download e2e_world (e2e_config\<lparr>max_depth := 0\<rparr>) []))"
    by blast
  show ?thesis using m a b by (simp add: e2e_depth0_trace)
qed

text \<open>
  Claim C10. In every state in which the crawl loop tests its frontier, and in every
  state after a link of the page being expanded, every frontier entry is either the
  seed at depth 0 or has a depth between 1 and the maximum depth, the authority of the
  start URL and, when same-path-only is set, a path that starts with the path of the
  start URL; an entry at depth 0 is the seed.
\<close>

theorem frontier_entries_in_scope_and_depth:
  assumes "reachable w cfg fs st \<or> in_page w cfg fs st"
  shows "(\<forall>u k. (u, k) \<in> set (queued st) \<longrightarrow>
            (u = start_url cfg \<and> k = 0)
            \<or> (1 \<le> k \<and> k \<le> max_depth cfg \<and> is_same_site u (start_url cfg)
                \<and> (same_path_only cfg \<longrightarrow>
                      startswith (path (urlparse u)) (path (urlparse (start_url cfg))))))
   \<and> (\<forall>u. (u, 0) \<in> set (queued st) \<longrightarrow> u = start_url cfg)"
proof -
  have ok: "frontier_ok cfg st"
    using assms reachable_frontier_ok in_page_frontier_ok by blast
  have "(u = start_url cfg \<and> k = 0)
      \<or> (1 \<le> k \<and> k \<le> max_depth cfg \<and> is_same_site u (start_url cfg)
          \<and> (same_path_only cfg \<longrightarrow>
                startswith (path (urlparse u)) (path (urlparse (start_url cfg)))))"
    if "(u, k) \<in> set (queued st)" for u k
    using ok that
    by (fastforce simp: frontier_ok_def in_scope_def is_under_base_path_def Let_def)
  moreover have "u = start_url cfg" if "(u, 0) \<in> set (queued st)" for u
    using ok that by (fastforce simp: frontier_ok_def)
  ultimately show ?thesis by blast
qed

theorem frontier_entries_in_scope_and_depth_witness:
  "reachable e2e_world e2e_config []
     (crawl_step e2e_world e2e_config (load_robots e2e_world (start_url e2e_config))
        (enforced_delay e2e_config (load_robots e2e_world (start_url e2e_config)))
        (initial_state e2e_config []))
   \<and> (''http://site/ref/page2'', 1)
       \<in> set (queued (crawl_step e2e_world e2e_config (load_robots e2e_world (start_url e2e_config))
        (enforced_delay e2e_config (load_robots e2e_world (start_url e2e_config)))
        (initial_state e2e_config [])))
   \<and> 1 \<le> max_depth e2e_config
   \<and> is_same_site ''http://site/ref/page2'' (start_url e2e_config)
   \<and> startswith (path (urlparse ''http://site/ref/page2'')) (path (urlparse (start_url e2e_config)))"
proof -
  let ?st = "crawl_step e2e_world e2e_config (load_robots e2e_world (start_url e2e_config))
        (enforced_delay e2e_config (load_robots e2e_world (start_url e2e_config)))
        (initial_state e2e_config [])"
  have r: "reachable e2e_world e2e_config [] ?st"
    by (rule reachable_step [OF reachable_init]) (simp add: initial_state_def)
  have q: "(''http://site/ref/page2'', 1) \<in> set (queued ?st)"
    by (simp add: e2e_first_step_queued)
  have ne: "''http://site/ref/page2'' \<noteq> start_url e2e_config"
    by (simp add: e2e_config_def)
  have s: "same_path_only e2e_config" by (simp add: e2e_config_def)
  from frontier_entries_in_scope_and_depth [OF disjI1 [OF r]] q ne s
  have "1 \<le> max_depth e2e_config \<and> is_same_site ''http://site/ref/page2'' (start_url e2e_config)
      \<and> startswith (path (urlparse ''http://site/ref/page2'')) (path (urlparse (start_url e2e_config)))"
    by blast
  with r q show ?thesis by blast
qed

end
